theory Spec2Isabelle
  imports Complex_Main "HOL-Library.Log_Nat" "HOL-Library.Monad_Syntax"
begin

section \<open>Arithmetic conventions\<close>

text \<open>
  The program \<^verbatim>\<open>infinicity.c\<close> computes with C \<^verbatim>\<open>float\<close> values, and with
  \<^verbatim>\<open>double\<close> where a literal such as \<^verbatim>\<open>0.1\<close> takes part. Every finite value of both
  types is a rational number, and the model computes with type \<open>rat\<close>. The result of
  an operation on floats is the exact result rounded to the 24 significant bits of
  binary32, \<open>fl\<close>, and \<open>dbl\<close> rounds to the 53 bits of binary64, both to the nearest
  value, ties to the even one. None of the values below comes near the largest or the
  smallest normal number of either format, so the bounds of the exponent are left out.

  The travel, the seeds and the section \<open>The generator in single precision\<close> round in
  this way. The generator that fills the slots of the grid is kept in exact arithmetic:
  what the grid needs of it is that it returns, and which meshes it hands over.

  Integer-valued C variables (\<^verbatim>\<open>int\<close>, \<^verbatim>\<open>long\<close>, \<^verbatim>\<open>GLuint\<close>) are \<open>int\<close> or \<open>nat\<close>; none of
  the values below comes near the limits of the machine types.

  Undefined behaviour of the C program (a store outside a stack array, an array
  without elements or of negative size) is the value \<open>None\<close> of an \<open>option\<close> result.
\<close>

definition c_trunc :: "rat \<Rightarrow> int" where
  \<comment> \<open>the C cast \<^verbatim>\<open>(long)x\<close> of a floating value: the fraction is discarded\<close>
  "c_trunc x = (if 0 \<le> x then \<lfloor>x\<rfloor> else \<lceil>x\<rceil>)"

definition pow2 :: "int \<Rightarrow> rat" where
  "pow2 e = (if 0 \<le> e then 2 ^ nat e else 1 / 2 ^ nat (- e))"

definition exponent :: "rat \<Rightarrow> int" where
  \<comment> \<open>the binary exponent of a value other than zero: \<open>2^e \<le> \<bar>x\<bar> < 2^(e+1)\<close>\<close>
  "exponent x =
     (if 1 \<le> \<bar>x\<bar> then bitlen \<lfloor>\<bar>x\<bar>\<rfloor> - 1 else - bitlen (\<lceil>1 / \<bar>x\<bar>\<rceil> - 1))"

definition nearest_even :: "rat \<Rightarrow> int" where
  "nearest_even q =
     (let n = \<lfloor>q\<rfloor>; r = q - of_int n
      in if r < 1 / 2 then n else if 1 / 2 < r then n + 1 else if even n then n else n + 1)"

definition round_to :: "nat \<Rightarrow> rat \<Rightarrow> rat" where
  \<comment> \<open>the nearest value with \<open>p\<close> significant bits\<close>
  "round_to p x =
     (if x = 0 then 0
      else let u = pow2 (exponent x - int p + 1) in of_int (nearest_even (x / u)) * u)"

definition fl :: "rat \<Rightarrow> rat" where
  "fl x = round_to 24 x"

definition dbl :: "rat \<Rightarrow> rat" where
  "dbl x = round_to 53 x"

section \<open>Seeds\<close>

text \<open>
  \<^verbatim>\<open>hardSeed\<close> is an array of floats initialised with the literals \<^verbatim>\<open>69.83\<close> and
  \<^verbatim>\<open>11.17\<close>. In \<^verbatim>\<open>getSeed\<close> the sums \<^verbatim>\<open>(float)cP+0.525\<close> and \<^verbatim>\<open>(float)rP+0.164\<close> are
  sums of doubles, stored in the float array \<^verbatim>\<open>temp\<close>; the product with \<^verbatim>\<open>1000\<close> is a
  product of floats.
\<close>

definition hardSeed :: "rat list" where
  "hardSeed = [fl (dbl (6983 / 100)), fl (dbl (1117 / 100))]"

definition vecNf_dot :: "rat list \<Rightarrow> rat list \<Rightarrow> nat \<Rightarrow> rat" where
  \<comment> \<open>Modelled from the spec: \<^verbatim>\<open>vecNf_dot\<close> belongs to the library \<^verbatim>\<open>libkuhl\<close>, whose
      source is not part of the sample; the spec says that the seed function "takes
      its dot product with the fixed HardSeedVector". Arguments and result are
      floats: the products are added one after the other to a float that starts at
      zero.\<close>
  "vecNf_dot A B n = fold (\<lambda>k sum. fl (sum + fl (A ! k * B ! k))) [0..<n] 0"

definition getSeed :: "int \<Rightarrow> int \<Rightarrow> int" where
  "getSeed cP rP =
     (let temp = [fl (dbl (fl (rat_of_int cP) + dbl (525 / 1000))),
                  fl (dbl (fl (rat_of_int rP) + dbl (164 / 1000)))]
      in c_trunc (fl (vecNf_dot temp hardSeed 2 * fl 1000)))"

text \<open>
  The seed function as the specification words it, in exact arithmetic and with each
  operation rounded to single precision.
\<close>

definition truncate_toward_zero :: "rat \<Rightarrow> int" where
  "truncate_toward_zero x = (if x < 0 then - \<lfloor>- x\<rfloor> else \<lfloor>x\<rfloor>)"

definition SeedFunction :: "rat \<times> rat \<Rightarrow> int \<Rightarrow> int \<Rightarrow> int" where
  "SeedFunction HardSeedVector lateral worldDepth =
     (let v = (rat_of_int lateral + 525 / 1000, rat_of_int worldDepth + 164 / 1000)
      in truncate_toward_zero
           (1000 * (fst v * fst HardSeedVector + snd v * snd HardSeedVector)))"

definition SeedFunction32 :: "rat \<times> rat \<Rightarrow> int \<Rightarrow> int \<Rightarrow> int" where
  "SeedFunction32 HardSeedVector lateral worldDepth =
     (let v = (fl (rat_of_int lateral + 525 / 1000), fl (rat_of_int worldDepth + 164 / 1000))
      in truncate_toward_zero
           (fl (fl (fl (fst v * fst HardSeedVector) + fl (snd v * snd HardSeedVector)) * 1000)))"

section \<open>The pseudo-random stream\<close>

text \<open>
  \<^verbatim>\<open>srand48\<close> and \<^verbatim>\<open>drand48\<close> are functions of the C library. They are modelled
  as POSIX defines them: a 48-bit linear congruential generator
  \<open>X' = (a * X + c) mod 2^48\<close> with \<open>a = 0x5DEECE66D\<close> and \<open>c = 0xB\<close>;
  \<^verbatim>\<open>srand48\<close> puts the low 32 bits of its argument into the high 32 bits of \<open>X\<close> and
  \<open>0x330E\<close> into the low 16 bits; \<^verbatim>\<open>drand48\<close> steps the generator and returns
  \<open>X / 2^48\<close>. The generator's state is a global of the process.
\<close>

definition srand48 :: "int \<Rightarrow> int" where
  "srand48 seedval = (seedval mod 2 ^ 32) * 2 ^ 16 + 13070"

definition drand48 :: "int \<Rightarrow> rat \<times> int" where
  "drand48 X = (let X' = (25214903917 * X + 11) mod 2 ^ 48
                in (rat_of_int X' / 2 ^ 48, X'))"

definition randomRange :: "rat \<Rightarrow> rat \<Rightarrow> int \<Rightarrow> rat \<times> int" where
  "randomRange start end X =
     (let (n, X') = drand48 X;
          n = n * (end - start);
          n = n + start
      in (n, X'))"

section \<open>Window buffers\<close>

text \<open>A loop over a list of values whose body may fail.\<close>

primrec for_each :: "'a list \<Rightarrow> ('a \<Rightarrow> 's \<Rightarrow> 's option) \<Rightarrow> 's \<Rightarrow> 's option" where
  "for_each [] body s = Some s"
| "for_each (n # ns) body s =
     (case body n s of None \<Rightarrow> None | Some s' \<Rightarrow> for_each ns body s')"

text \<open>
  The window arrays \<^verbatim>\<open>wVertexPositions\<close>, \<^verbatim>\<open>wNormalData\<close>, \<^verbatim>\<open>wColorData\<close> and
  \<^verbatim>\<open>wIndexData\<close> are variable-length arrays on the stack. Their elements are
  indeterminate until written: an element is \<open>None\<close> until a store makes it \<open>Some v\<close>.
  A store at an index outside the array is undefined behaviour.
\<close>

primrec store :: "'a option list \<Rightarrow> nat \<Rightarrow> 'a list \<Rightarrow> 'a option list option" where
  "store buf n [] = Some buf"
| "store buf n (v # vs) =
     (if n < length buf then store (buf[n := Some v]) (Suc n) vs else None)"

record wstate =
  wVertexPositions :: "rat option list"
  wNormalData :: "rat option list"
  wColorData :: "rat option list"
  wIndexData :: "nat option list"
  n1 :: nat
  n2 :: nat
  n3 :: nat
  rng :: int  \<comment> \<open>the state of \<^verbatim>\<open>drand48\<close> while the loops run\<close>

definition ws :: rat where "ws = 13 / 100"  \<comment> \<open>window size\<close>
definition wp :: rat where "wp = 2 / 100"  \<comment> \<open>window padding (bottom and left)\<close>
definition wo :: rat where "wo = 1 / 1000"  \<comment> \<open>window outwards\<close>
definition bc :: rat where "bc = 6 / 10"  \<comment> \<open>base color\<close>

text \<open>
  The loops \<^verbatim>\<open>for (float x = x0; x < lim; x += ws+wp)\<close>: the body does not assign the
  loop variable.
\<close>

function for_float :: "rat \<Rightarrow> rat \<Rightarrow> (rat \<Rightarrow> 's \<Rightarrow> 's option) \<Rightarrow> 's \<Rightarrow> 's option" where
  "for_float x bound body st =
     (if x < bound
      then (case body x st of None \<Rightarrow> None
            | Some st' \<Rightarrow> for_float (x + (ws + wp)) bound body st')
      else Some st)"
  by pat_completeness auto
termination
proof (relation "measure (\<lambda>(x, bound, body, st). nat \<lceil>(bound - x) / (ws + wp)\<rceil>)")
  show "wf (measure (\<lambda>(x, bound, body, st). nat \<lceil>(bound - x) / (ws + wp)\<rceil>))"
    by simp
next
  fix x b :: rat and body :: "rat \<Rightarrow> 's \<Rightarrow> 's option" and st x2 :: 's
  assume lt: "x < b"
  have "(b - (x + (ws + wp))) / (ws + wp) = (b - x) / (ws + wp) - 1"
    by (simp add: ws_def wp_def field_simps)
  moreover have "0 < (b - x) / (ws + wp)"
    using lt by (simp add: ws_def wp_def)
  ultimately have "nat \<lceil>(b - (x + (ws + wp))) / (ws + wp)\<rceil> < nat \<lceil>(b - x) / (ws + wp)\<rceil>"
    by (simp add: ceiling_diff_one)
  then show "((x + (ws + wp), b, body, x2), (x, b, body, st))
      \<in> measure (\<lambda>(x, bound, body, st). nat \<lceil>(bound - x) / (ws + wp)\<rceil>)"
    by simp
qed

declare for_float.simps [simp del]

text \<open>
  One window: the body of the inner loop. The three faces differ in the twelve vertex
  coordinates and in the normal only, which are parameters here. The tier-1 code is the
  tier-2 code without the inset \<^verbatim>\<open>fud\<close>; it is the instance \<open>fud = 0\<close>.
\<close>

definition front_vertices :: "rat \<Rightarrow> rat \<Rightarrow> rat \<Rightarrow> rat \<Rightarrow> rat list" where
  "front_vertices fud sh i j =
     [fud + i, sh + j, - fud + wo,
      fud + i + ws, sh + j, - fud + wo,
      fud + i, sh + j + ws, - fud + wo,
      fud + i + ws, sh + j + ws, - fud + wo]"

definition left_vertices :: "rat \<Rightarrow> rat \<Rightarrow> rat \<Rightarrow> rat \<Rightarrow> rat list" where
  "left_vertices fud sh i j =
     [fud - wo, sh + j, - fud - i,
      fud - wo, sh + j, - fud - i - ws,
      fud - wo, sh + j + ws, - fud - i,
      fud - wo, sh + j + ws, - fud - i - ws]"

definition right_vertices :: "rat \<Rightarrow> rat \<Rightarrow> rat \<Rightarrow> rat \<Rightarrow> rat \<Rightarrow> rat list" where
  "right_vertices fud sh w i j =
     [fud + w + wo, sh + j, - fud - i,
      fud + w + wo, sh + j, - fud - i - ws,
      fud + w + wo, sh + j + ws, - fud - i,
      fud + w + wo, sh + j + ws, - fud - i - ws]"

definition window_quad ::
  "(rat \<Rightarrow> rat \<Rightarrow> rat list) \<Rightarrow> rat list \<Rightarrow> rat \<Rightarrow> rat \<Rightarrow> wstate \<Rightarrow> wstate option" where
  "window_quad vertices normal i j st = do {
     vp \<leftarrow> store (wVertexPositions st) (n1 st) (vertices i j);
     nd \<leftarrow> store (wNormalData st) (n1 st) (normal @ normal @ normal @ normal);
     let (lit, X') = randomRange 0 1 (rng st);
     let cv = (if lit > 1 / 2 then [1 / 2, 1 / 2, 0] else [0, 0, 0]);
     cd \<leftarrow> store (wColorData st) (n1 st) (cv @ cv @ cv @ cv);
     ix \<leftarrow> store (wIndexData st) (n2 st)
            [n3 st + 0, n3 st + 1, n3 st + 2, n3 st + 1, n3 st + 2, n3 st + 3];
     Some (st\<lparr>wVertexPositions := vp, wNormalData := nd, wColorData := cd,
              wIndexData := ix, rng := X',
              n1 := n1 st + 12, n2 := n2 st + 6, n3 := n3 st + 4\<rparr>)
   }"

definition face_loop ::
  "rat \<Rightarrow> rat \<Rightarrow> int \<Rightarrow> (rat \<Rightarrow> rat \<Rightarrow> rat list) \<Rightarrow> rat list \<Rightarrow> wstate \<Rightarrow> wstate option" where
  "face_loop w h hw vertices normal st =
     for_float (w / 2 - (of_int hw * (ws + wp) / 2) + wp / 2) (w - ws)
       (\<lambda>i. for_float wp (h - ws) (\<lambda>j. window_quad vertices normal i j)) st"

text \<open>
  The arrays are declared with \<open>tw*4*3*3\<close> and \<open>tw*4*3*3/2\<close> elements, and filled by the
  loops over the front, the left and the right face.
\<close>

definition window_arrays ::
  "rat \<Rightarrow> rat \<Rightarrow> rat \<Rightarrow> rat \<Rightarrow> int \<Rightarrow> int \<Rightarrow> int \<Rightarrow> wstate option" where
  "window_arrays fud sh w h hw tw X =
     (if tw < 0 then None
      else do {
        let st = \<lparr>wVertexPositions = replicate (nat (tw * 4 * 3 * 3)) None,
                  wNormalData = replicate (nat (tw * 4 * 3 * 3)) None,
                  wColorData = replicate (nat (tw * 4 * 3 * 3)) None,
                  wIndexData = replicate (nat (tw * 4 * 3 * 3 div 2)) None,
                  n1 = 0, n2 = 0, n3 = 0, rng = X\<rparr>;
        st \<leftarrow> face_loop w h hw (front_vertices fud sh) [0, 0, 1] st;
        st \<leftarrow> face_loop w h hw (left_vertices fud sh) [1, 0, 0] st;
        face_loop w h hw (right_vertices fud sh w) [1, 0, 0] st
      })"

section \<open>Geometry objects\<close>

text \<open>
  A \<^verbatim>\<open>kuhl_geometry\<close> struct names a geometry object held by the renderer. Copying the
  struct copies the name, not the object. The static arrays of the program start
  zero-initialised, which is the name \<open>0\<close>.
\<close>

type_synonym kuhl_geometry = nat

record mesh =
  vertex_count :: nat
  in_Position :: "rat option list"
  in_Color :: "rat option list"
  in_Normal :: "rat option list"
  in_TexCoord :: "rat option list"
  indices :: "nat option list"

datatype recycle = RowFar int | RowNear int

record world =
  building :: "nat \<Rightarrow> nat \<Rightarrow> kuhl_geometry"
  windows :: "nat \<Rightarrow> nat \<Rightarrow> kuhl_geometry"
  buildingTop :: "nat \<Rightarrow> nat \<Rightarrow> kuhl_geometry"
  windowsTop :: "nat \<Rightarrow> nat \<Rightarrow> kuhl_geometry"
  isComplex :: "nat \<Rightarrow> nat \<Rightarrow> int"
    \<comment> \<open>a \<^verbatim>\<open>float\<close> array in the source; it only ever holds the \<^verbatim>\<open>int\<close> 0 or 1\<close>
  roads :: kuhl_geometry
  shift :: rat
  shiftBreak :: int
  rand48 :: int  \<comment> \<open>the state of the C library's \<^verbatim>\<open>drand48\<close>\<close>
  gl_objects :: "kuhl_geometry \<rightharpoonup> mesh"  \<comment> \<open>the renderer's live geometry objects\<close>
  gl_next :: kuhl_geometry  \<comment> \<open>the next unused name\<close>
  recycled :: "recycle list"
    \<comment> \<open>ghost: the recycle events so far, oldest first; the source keeps no such log\<close>

definition kuhl_geometry_new :: "nat \<Rightarrow> world \<Rightarrow> kuhl_geometry \<times> world" where
  \<comment> \<open>Modelled from the spec: \<^verbatim>\<open>kuhl_geometry_new\<close> of \<^verbatim>\<open>libkuhl\<close> is not part of the
      sample; it is one of the renderer's "resource upload/teardown primitives". It
      creates a geometry object with the given vertex count and no attributes yet.\<close>
  "kuhl_geometry_new vertexCount s =
     (let g = gl_next s
      in (g, s\<lparr>gl_objects := (gl_objects s)(g \<mapsto>
                   \<lparr>vertex_count = vertexCount, in_Position = [], in_Color = [],
                    in_Normal = [], in_TexCoord = [], indices = []\<rparr>),
                gl_next := Suc g\<rparr>))"

definition kuhl_geometry_attrib ::
  "kuhl_geometry \<Rightarrow> rat option list \<Rightarrow> string \<Rightarrow> world \<Rightarrow> world" where
  \<comment> \<open>Modelled from the spec: \<^verbatim>\<open>kuhl_geometry_attrib\<close> of \<^verbatim>\<open>libkuhl\<close>; it uploads one
      of the "ordered vertex attribute buffers" of a mesh.\<close>
  "kuhl_geometry_attrib g data name s =
     s\<lparr>gl_objects := (gl_objects s)(g :=
          map_option (\<lambda>m. if name = ''in_Position'' then m\<lparr>in_Position := data\<rparr>
                           else if name = ''in_Color'' then m\<lparr>in_Color := data\<rparr>
                           else if name = ''in_Normal'' then m\<lparr>in_Normal := data\<rparr>
                           else if name = ''in_TexCoord'' then m\<lparr>in_TexCoord := data\<rparr>
                           else m) (gl_objects s g))\<rparr>"

definition kuhl_geometry_indices :: "kuhl_geometry \<Rightarrow> nat option list \<Rightarrow> world \<Rightarrow> world" where
  \<comment> \<open>Modelled from the spec: \<^verbatim>\<open>kuhl_geometry_indices\<close> of \<^verbatim>\<open>libkuhl\<close>; it uploads the
      "triangle index buffer" of a mesh.\<close>
  "kuhl_geometry_indices g data s =
     s\<lparr>gl_objects := (gl_objects s)(g :=
          map_option (\<lambda>m. m\<lparr>indices := data\<rparr>) (gl_objects s g))\<rparr>"

definition kuhl_geometry_delete :: "kuhl_geometry \<Rightarrow> world \<Rightarrow> world" where
  \<comment> \<open>Modelled from the spec: \<^verbatim>\<open>kuhl_geometry_delete\<close> of \<^verbatim>\<open>libkuhl\<close>; a mesh is
      "destroyed explicitly on retirement".\<close>
  "kuhl_geometry_delete g s = s\<lparr>gl_objects := (gl_objects s)(g := None)\<rparr>"

definition upd2 :: "(nat \<Rightarrow> nat \<Rightarrow> 'a) \<Rightarrow> nat \<Rightarrow> nat \<Rightarrow> 'a \<Rightarrow> nat \<Rightarrow> nat \<Rightarrow> 'a" where
  \<comment> \<open>the assignment \<^verbatim>\<open>a[i][j] = v\<close>\<close>
  "upd2 a i j v = a(i := (a i)(j := v))"

section \<open>The building generator\<close>

text \<open>
  \<^verbatim>\<open>init_geometryBuilding\<close> is modelled in pieces that follow its comments: the block
  "Draw main building", the block "Draw windows", and the function itself, which draws
  the dimensions and runs the two blocks once for the base and, for a complex building,
  once more for the top. The GLSL program \<^verbatim>\<open>prog\<close> is passed through to the renderer
  and left out.
\<close>

definition draw_main_building ::
  "rat \<Rightarrow> rat \<Rightarrow> rat \<Rightarrow> rat \<Rightarrow> world \<Rightarrow> kuhl_geometry \<times> world" where
  "draw_main_building fud sh w h s =
     (let (g, s) = kuhl_geometry_new 16 s;
          vertexPositions =
            [fud + 0, sh + 0, - fud + 0,
             fud + w, sh + 0, - fud + 0,
             fud + 0, sh + h, - fud + 0,
             fud + w, sh + h, - fud + 0,
             fud + 0, sh + 0, - fud + 0,
             fud + 0, sh + 0, - fud + - w,
             fud + 0, sh + h, - fud + 0,
             fud + 0, sh + h, - fud + - w,
             fud + w, sh + 0, - fud + 0,
             fud + w, sh + 0, - fud + - w,
             fud + w, sh + h, - fud + 0,
             fud + w, sh + h, - fud + - w,
             fud + 0, sh + h, - fud + 0,
             fud + w, sh + h, - fud + 0,
             fud + 0, sh + h, - fud + - w,
             fud + w, sh + h, - fud + - w];
          s = kuhl_geometry_attrib g (map Some vertexPositions) ''in_Position'' s;
          colorData = concat (replicate 16 [bc, bc, bc]);
          s = kuhl_geometry_attrib g (map Some colorData) ''in_Color'' s;
          normalData = concat (replicate 4 [0, 0, 1]) @ concat (replicate 4 [1, 0, 0])
                       @ concat (replicate 4 [1, 0, 0]) @ concat (replicate 4 [0, 1, 0]);
          s = kuhl_geometry_attrib g (map Some normalData) ''in_Normal'' s;
          indexData = [0, 1, 2, 1, 2, 3, 4, 5, 6, 5, 6, 7,
                       8, 9, 10, 9, 10, 11, 12, 13, 14, 13, 14, 15];
          s = kuhl_geometry_indices g (map Some indexData) s
      in (g, s))"

definition draw_windows ::
  "rat \<Rightarrow> rat \<Rightarrow> rat \<Rightarrow> rat \<Rightarrow> world \<Rightarrow> (kuhl_geometry \<times> world) option" where
  "draw_windows fud sh w h s =
     (let hw = \<lfloor>w / (ws + wp)\<rfloor>;
          vw = \<lfloor>h / (ws + wp)\<rfloor>;
          tw = hw * vw;
          (g, s) = kuhl_geometry_new (nat (tw * 4 * 3)) s
      in do {
        st \<leftarrow> window_arrays fud sh w h hw tw (rand48 s);
        let s = s\<lparr>rand48 := rng st\<rparr>;
        let s = kuhl_geometry_attrib g (wVertexPositions st) ''in_Position'' s;
        let s = kuhl_geometry_attrib g (wNormalData st) ''in_Normal'' s;
        let s = kuhl_geometry_attrib g (wColorData st) ''in_Color'' s;
        let s = kuhl_geometry_indices g (wIndexData st) s;
        Some (g, s)
      })"

definition random_world :: "rat \<Rightarrow> rat \<Rightarrow> world \<Rightarrow> rat \<times> world" where
  \<comment> \<open>\<^verbatim>\<open>randomRange\<close> on the process's generator state\<close>
  "random_world start end s =
     (let (n, X') = randomRange start end (rand48 s) in (n, s\<lparr>rand48 := X'\<rparr>))"

definition top_dimensions :: "rat \<Rightarrow> world \<Rightarrow> (rat \<times> rat \<times> rat) \<times> world" where
  \<comment> \<open>the block "get dimensions" of a complex building: the width, the height and the
      inset \<^verbatim>\<open>fud\<close> of the top, from the width \<^verbatim>\<open>oldW\<close> of the base\<close>
  "top_dimensions oldW s =
     (let (w, s) = random_world (ws + wp) oldW s;
          w = (if w + 15 / 100 < oldW then w + 15 / 100 else w);
          (h, s) = random_world (5 / 10) (15 / 10) s;
          (fud, s) = random_world 0 ((oldW - w) / 2) s
      in ((w, h, fud), s))"

definition init_geometryBuilding :: "nat \<Rightarrow> nat \<Rightarrow> int \<Rightarrow> world \<Rightarrow> (int \<times> world) option" where
  \<comment> \<open>every call of the source passes the addresses of \<^verbatim>\<open>building[i][j]\<close>,
      \<^verbatim>\<open>windows[i][j]\<close>, \<^verbatim>\<open>buildingTop[i][j]\<close> and \<^verbatim>\<open>windowsTop[i][j]\<close> for one
      \<open>(i, j)\<close>; the model takes \<open>i\<close> and \<open>j\<close>\<close>
  "init_geometryBuilding i j seed s =
     (let s = s\<lparr>rand48 := srand48 seed\<rparr>;
          (w, s) = random_world (4 / 10) (8 / 10) s;
          (h, s) = random_world (8 / 10) (22 / 10) s;
          sh = 0;
          (g, s) = draw_main_building 0 sh w h s;
          s = s\<lparr>building := upd2 (building s) i j g\<rparr>
      in do {
        (g, s) \<leftarrow> draw_windows 0 sh w h s;
        let s = s\<lparr>windows := upd2 (windows s) i j g\<rparr>;
        let (c, s) = random_world 0 1 s;
        if c > 1 / 2 then do {
          let sh = h;
          let oldW = w;
          let ((w, h, fud), s) = top_dimensions oldW s;
          let (g, s) = draw_main_building fud sh w h s;
          let s = s\<lparr>buildingTop := upd2 (buildingTop s) i j g\<rparr>;
          (g, s) \<leftarrow> draw_windows fud sh w h s;
          let s = s\<lparr>windowsTop := upd2 (windowsTop s) i j g\<rparr>;
          Some (1, s)
        } else Some (0, s)
      })"

section \<open>The grid and the row recycler\<close>

definition init_geometryRoads :: "world \<Rightarrow> world" where
  \<comment> \<open>the texture file is read by the renderer and left out\<close>
  "init_geometryRoads s =
     (let (g, s) = kuhl_geometry_new 4 s;
          s = s\<lparr>roads := g\<rparr>;
          vertexPositions = [0, 0, 0, 10, 0, 0, 10, 0, 10, 0, 0, 10];
          s = kuhl_geometry_attrib g (map Some vertexPositions) ''in_Position'' s;
          indexData = [0, 1, 2, 0, 2, 3];
          s = kuhl_geometry_indices g (map Some indexData) s;
          colorData = [1, 1, 1, 1, 1, 1, 1, 1, 1, 1, 1, 1];
          s = kuhl_geometry_attrib g (map Some colorData) ''in_Color'' s;
          texcoordData = [0, 0, 10, 0, 10, 10, 0, 10];
          s = kuhl_geometry_attrib g (map Some texcoordData) ''in_TexCoord'' s
      in s)"

definition new_building :: "nat \<Rightarrow> nat \<Rightarrow> int \<Rightarrow> world \<Rightarrow> world option" where
  \<comment> \<open>the statement
      \<^verbatim>\<open>isComplex[i][j] = init_geometryBuilding(&building[i][j], ..., seedNum)\<close>\<close>
  "new_building i j seedNum s = do {
     (c, s) \<leftarrow> init_geometryBuilding i j seedNum s;
     Some (s\<lparr>isComplex := upd2 (isComplex s) i j c\<rparr>)
   }"

definition init_buildings :: "world \<Rightarrow> world option" where
  "init_buildings s =
     for_each [0..<10] (\<lambda>i. for_each [0..<10] (\<lambda>j s.
       let seedNum = getSeed (int i) (int j) in new_building i j seedNum s)) s"

definition delete_row :: "nat \<Rightarrow> world \<Rightarrow> world" where
  \<comment> \<open>the first loop of \<^verbatim>\<open>addRowFar\<close> (\<open>r = 0\<close>) and of \<^verbatim>\<open>addRowNear\<close> (\<open>r = 9\<close>)\<close>
  "delete_row r s =
     fold (\<lambda>n s.
       let s = kuhl_geometry_delete (building s n r) s;
           s = kuhl_geometry_delete (windows s n r) s
       in if isComplex s n r = 1
          then let s = kuhl_geometry_delete (buildingTop s n r) s
               in kuhl_geometry_delete (windowsTop s n r) s
          else s) [0..<10] s"

definition move_cell :: "nat \<Rightarrow> nat \<Rightarrow> nat \<Rightarrow> world \<Rightarrow> world" where
  \<comment> \<open>the five assignments \<^verbatim>\<open>a[i][j] = a[i][k]\<close> of the moving loops, in their order\<close>
  "move_cell i j k s =
     (let s = s\<lparr>building := upd2 (building s) i j (building s i k)\<rparr>;
          s = s\<lparr>windows := upd2 (windows s) i j (windows s i k)\<rparr>;
          s = s\<lparr>buildingTop := upd2 (buildingTop s) i j (buildingTop s i k)\<rparr>;
          s = s\<lparr>windowsTop := upd2 (windowsTop s) i j (windowsTop s i k)\<rparr>;
          s = s\<lparr>isComplex := upd2 (isComplex s) i j (isComplex s i k)\<rparr>
      in s)"

definition move_rows_back :: "world \<Rightarrow> world" where
  \<comment> \<open>\<^verbatim>\<open>for (i = 0; i < 10; i++) for (j = 0; j < 9; j++) a[i][j] = a[i][j+1]\<close>\<close>
  "move_rows_back s = fold (\<lambda>i. fold (\<lambda>j. move_cell i j (j + 1)) [0..<9]) [0..<10] s"

definition move_rows_forward :: "world \<Rightarrow> world" where
  \<comment> \<open>\<^verbatim>\<open>for (i = 9; i >= 0; i--) for (j = 9; j > 0; j--) a[i][j] = a[i][j-1]\<close>\<close>
  "move_rows_forward s =
     fold (\<lambda>i. fold (\<lambda>j. move_cell i j (j - 1)) (rev [1..<10])) (rev [0..<10]) s"

definition addRowFar :: "world \<Rightarrow> world option" where
  "addRowFar s =
     (let s = s\<lparr>recycled := recycled s @ [RowFar (shiftBreak s)]\<rparr>;
          s = delete_row 0 s;
          s = move_rows_back s
      in for_each [0..<10] (\<lambda>n s.
           let seedNum = getSeed (int n) (9 - shiftBreak s) in new_building n 9 seedNum s) s)"

definition addRowNear :: "world \<Rightarrow> world option" where
  "addRowNear s =
     (let s = s\<lparr>recycled := recycled s @ [RowNear (shiftBreak s)]\<rparr>;
          s = delete_row 9 s;
          s = move_rows_forward s
      in for_each [0..<10] (\<lambda>n s.
           let seedNum = getSeed (int n) (- shiftBreak s) in new_building n 0 seedNum s) s)"

section \<open>Input and the frame update\<close>

datatype key = KEY_SPACE | KEY_B | KEY_other

definition keyboard :: "key \<Rightarrow> world \<Rightarrow> world" where
  \<comment> \<open>the camera keys change the view only and are \<open>KEY_other\<close>\<close>
  "keyboard k s =
     (case k of KEY_SPACE \<Rightarrow> s\<lparr>shift := fl (dbl (shift s - dbl (1 / 10)))\<rparr>
      | KEY_B \<Rightarrow> s\<lparr>shift := fl (dbl (shift s + dbl (1 / 10)))\<rparr>
      | KEY_other \<Rightarrow> s)"

definition display :: "world \<Rightarrow> world option" where
  \<comment> \<open>the part of \<^verbatim>\<open>display\<close> that writes the globals; the rest reads them and draws\<close>
  "display s =
     (if \<lfloor>shift s\<rfloor> < shiftBreak s
      then addRowFar (s\<lparr>shiftBreak := \<lfloor>shift s\<rfloor>\<rparr>)
      else if \<lfloor>shift s\<rfloor> > shiftBreak s
      then addRowNear (s\<lparr>shiftBreak := \<lfloor>shift s\<rfloor>\<rparr>)
      else Some s)"

text \<open>
  The program before its main loop: the statics are zero, \<^verbatim>\<open>init_buildings\<close> and
  \<^verbatim>\<open>init_geometryRoads\<close> run. The start value of \<^verbatim>\<open>drand48\<close>'s state and the first
  unused geometry name are parameters.
\<close>

definition statics :: "int \<Rightarrow> kuhl_geometry \<Rightarrow> world" where
  "statics X g =
     \<lparr>building = (\<lambda>_ _. 0), windows = (\<lambda>_ _. 0), buildingTop = (\<lambda>_ _. 0),
      windowsTop = (\<lambda>_ _. 0), isComplex = (\<lambda>_ _. 0), roads = 0,
      shift = 0, shiftBreak = 0, rand48 = X,
      gl_objects = Map.empty, gl_next = g, recycled = []\<rparr>"

definition startup :: "int \<Rightarrow> kuhl_geometry \<Rightarrow> world option" where
  "startup X g = map_option init_geometryRoads (init_buildings (statics X g))"

text \<open>
  One turn of the main loop: \<^verbatim>\<open>glfwPollEvents\<close> delivers the pending key events to
  \<^verbatim>\<open>keyboard\<close>, then \<^verbatim>\<open>display\<close> runs.
\<close>

definition frame :: "key list \<Rightarrow> world \<Rightarrow> world option" where
  "frame keys s = display (fold keyboard keys s)"

primrec frames :: "key list list \<Rightarrow> world \<Rightarrow> world option" where
  "frames [] s = Some s"
| "frames (keys # kss) s =
     (case frame keys s of None \<Rightarrow> None | Some s' \<Rightarrow> frames kss s')"

section \<open>Notions used in the proofs\<close>

definition steps :: "rat \<Rightarrow> rat \<Rightarrow> rat list" where
  "steps x b = map (\<lambda>k. x + of_nat k * (ws + wp)) [0..<nat \<lceil>(b - x) / (ws + wp)\<rceil>]"

definition fits :: "nat \<Rightarrow> wstate \<Rightarrow> bool" where
  "fits k st \<longleftrightarrow>
     length (wNormalData st) = length (wVertexPositions st) \<and>
     length (wColorData st) = length (wVertexPositions st) \<and>
     n1 st + 12 * k \<le> length (wVertexPositions st) \<and>
     n2 st + 6 * k \<le> length (wIndexData st)"

definition window_places :: "rat \<Rightarrow> rat \<Rightarrow> (rat \<times> rat) list" where
  "window_places w h =
     List.product (steps (w / 2 - (of_int \<lfloor>w / (ws + wp)\<rfloor> * (ws + wp) / 2) + wp / 2) (w - ws))
       (steps wp (h - ws))"

definition total_windows :: "rat \<Rightarrow> rat \<Rightarrow> int" where
  "total_windows w h = \<lfloor>w / (ws + wp)\<rfloor> * \<lfloor>h / (ws + wp)\<rfloor>"

text \<open>The meshes that the blocks of the generator hand to the renderer.\<close>

definition shell_mesh :: "rat \<Rightarrow> rat \<Rightarrow> rat \<Rightarrow> rat \<Rightarrow> mesh" where
  "shell_mesh fud sh w h =
     \<lparr>vertex_count = 16,
      in_Position = map Some
            [fud + 0, sh + 0, - fud + 0,
             fud + w, sh + 0, - fud + 0,
             fud + 0, sh + h, - fud + 0,
             fud + w, sh + h, - fud + 0,
             fud + 0, sh + 0, - fud + 0,
             fud + 0, sh + 0, - fud + - w,
             fud + 0, sh + h, - fud + 0,
             fud + 0, sh + h, - fud + - w,
             fud + w, sh + 0, - fud + 0,
             fud + w, sh + 0, - fud + - w,
             fud + w, sh + h, - fud + 0,
             fud + w, sh + h, - fud + - w,
             fud + 0, sh + h, - fud + 0,
             fud + w, sh + h, - fud + 0,
             fud + 0, sh + h, - fud + - w,
             fud + w, sh + h, - fud + - w],
      in_Color = map Some (concat (replicate 16 [bc, bc, bc])),
      in_Normal = map Some (concat (replicate 4 [0, 0, 1]) @ concat (replicate 4 [1, 0, 0])
                       @ concat (replicate 4 [1, 0, 0]) @ concat (replicate 4 [0, 1, 0])),
      in_TexCoord = [],
      indices = map Some [0, 1, 2, 1, 2, 3, 4, 5, 6, 5, 6, 7,
                       8, 9, 10, 9, 10, 11, 12, 13, 14, 13, 14, 15]\<rparr>"

definition windows_mesh :: "nat \<Rightarrow> wstate \<Rightarrow> mesh" where
  "windows_mesh n st =
     \<lparr>vertex_count = n, in_Position = wVertexPositions st, in_Color = wColorData st,
      in_Normal = wNormalData st, in_TexCoord = [], indices = wIndexData st\<rparr>"

definition tier_windows :: "rat \<Rightarrow> rat \<Rightarrow> rat \<Rightarrow> rat \<Rightarrow> int \<Rightarrow> wstate option" where
  "tier_windows fud sh w h X =
     window_arrays fud sh w h \<lfloor>w / (ws + wp)\<rfloor> (total_windows w h) X"

text \<open>
  The generator as a function of the seed alone: the meshes of a building, and the state
  in which it leaves \<^verbatim>\<open>drand48\<close>. The lemma \<open>init_geometryBuilding_generate\<close> below
  shows that \<^verbatim>\<open>init_geometryBuilding\<close> computes this and stores it.
\<close>

record plan =
  p_shell :: mesh
  p_windows :: mesh
  p_top :: "(mesh \<times> mesh) option"

definition top_dims :: "rat \<Rightarrow> int \<Rightarrow> (rat \<times> rat \<times> rat) \<times> int" where
  "top_dims oldW X =
     (let (w, X) = randomRange (ws + wp) oldW X;
          w = (if w + 15 / 100 < oldW then w + 15 / 100 else w);
          (h, X) = randomRange (5 / 10) (15 / 10) X;
          (fud, X) = randomRange 0 ((oldW - w) / 2) X
      in ((w, h, fud), X))"

definition generate :: "int \<Rightarrow> (plan \<times> int) option" where
  "generate seed =
     (let X = srand48 seed;
          (w, X) = randomRange (4 / 10) (8 / 10) X;
          (h, X) = randomRange (8 / 10) (22 / 10) X
      in case tier_windows 0 0 w h X of None \<Rightarrow> None
         | Some st \<Rightarrow>
             let (c, X) = randomRange 0 1 (rng st);
                 base = windows_mesh (nat (total_windows w h * 4 * 3)) st
             in if c > 1 / 2
                then (let ((w', h', fud), X) = top_dims w X
                      in case tier_windows fud h w' h' X of None \<Rightarrow> None
                         | Some st' \<Rightarrow>
                             Some (\<lparr>p_shell = shell_mesh 0 0 w h, p_windows = base,
                                    p_top = Some (shell_mesh fud h w' h',
                                      windows_mesh (nat (total_windows w' h' * 4 * 3)) st')\<rparr>,
                                   rng st'))
                else Some (\<lparr>p_shell = shell_mesh 0 0 w h, p_windows = base, p_top = None\<rparr>, X))"

definition install :: "nat \<Rightarrow> nat \<Rightarrow> plan \<Rightarrow> int \<Rightarrow> world \<Rightarrow> world" where
  "install i j p X s =
     (let g = gl_next s
      in case p_top p of
           None \<Rightarrow>
             s\<lparr>building := upd2 (building s) i j g,
               windows := upd2 (windows s) i j (Suc g),
               rand48 := X,
               gl_objects := (gl_objects s)(g \<mapsto> p_shell p, Suc g \<mapsto> p_windows p),
               gl_next := Suc (Suc g)\<rparr>
         | Some (t, tw) \<Rightarrow>
             s\<lparr>building := upd2 (building s) i j g,
               windows := upd2 (windows s) i j (Suc g),
               buildingTop := upd2 (buildingTop s) i j (Suc (Suc g)),
               windowsTop := upd2 (windowsTop s) i j (Suc (Suc (Suc g))),
               rand48 := X,
               gl_objects := (gl_objects s)(g \<mapsto> p_shell p, Suc g \<mapsto> p_windows p,
                                            Suc (Suc g) \<mapsto> t, Suc (Suc (Suc g)) \<mapsto> tw),
               gl_next := Suc (Suc (Suc (Suc g)))\<rparr>)"

text \<open>The twelve vertex coordinates of the \<open>k\<close>-th window written to the vertex array.\<close>

definition quad :: "wstate \<Rightarrow> nat \<Rightarrow> rat option list" where
  "quad st k = take 12 (drop (12 * k) (wVertexPositions st))"

text \<open>
  What a slot of the grid shows: the meshes that the renderer holds under the names in
  the slot, the flag, and the meshes of the top when the flag is set (the names in
  \<^verbatim>\<open>buildingTop\<close> and \<^verbatim>\<open>windowsTop\<close> are read by the program under this condition
  only).
\<close>

type_synonym cell = "mesh option \<times> mesh option \<times> int \<times> (mesh option \<times> mesh option) option"

definition cell_at :: "world \<Rightarrow> nat \<Rightarrow> nat \<Rightarrow> cell" where
  "cell_at s i j =
     (gl_objects s (building s i j), gl_objects s (windows s i j), isComplex s i j,
      if isComplex s i j = 1
      then Some (gl_objects s (buildingTop s i j), gl_objects s (windowsTop s i j))
      else None)"

definition complexity :: "int \<Rightarrow> int" where
  "complexity seed =
     (case generate seed of None \<Rightarrow> 0 | Some (p, X) \<Rightarrow> if p_top p = None then 0 else 1)"

definition generated :: "int \<Rightarrow> cell" where
  "generated seed =
     (case generate seed of None \<Rightarrow> (None, None, 0, None)
      | Some (p, X) \<Rightarrow>
          (Some (p_shell p), Some (p_windows p), complexity seed,
           map_option (\<lambda>(t, tw). (Some t, Some tw)) (p_top p)))"

definition place :: "nat \<Rightarrow> nat \<Rightarrow> int \<Rightarrow> world \<Rightarrow> world" where
  "place i j seed s =
     (case generate seed of None \<Rightarrow> s
      | Some (p, X) \<Rightarrow>
          (install i j p X s)\<lparr>isComplex := upd2 (isComplex s) i j (complexity seed)\<rparr>)"

text \<open>
  Ownership. A slot of the grid owns the geometry objects named by its \<^verbatim>\<open>building\<close> and
  \<^verbatim>\<open>windows\<close> entries and, when its flag is set, by its \<^verbatim>\<open>buildingTop\<close> and
  \<^verbatim>\<open>windowsTop\<close> entries. \<open>owns A E s\<close>: the slots in \<open>A\<close> own distinct objects, these
  and the objects in \<open>E\<close> are exactly the live ones, and every live name is below the
  next unused name.
\<close>

datatype part = Shell | Panes | TopShell | TopPanes

fun handle :: "world \<Rightarrow> nat \<times> nat \<times> part \<Rightarrow> kuhl_geometry" where
  "handle s (i, j, Shell) = building s i j"
| "handle s (i, j, Panes) = windows s i j"
| "handle s (i, j, TopShell) = buildingTop s i j"
| "handle s (i, j, TopPanes) = windowsTop s i j"

definition keys :: "(nat \<times> nat) set \<Rightarrow> world \<Rightarrow> (nat \<times> nat \<times> part) set" where
  "keys A s = {(i, j, p). (i, j) \<in> A \<and> (p = TopShell \<or> p = TopPanes \<longrightarrow> isComplex s i j = 1)}"

definition owns :: "(nat \<times> nat) set \<Rightarrow> kuhl_geometry set \<Rightarrow> world \<Rightarrow> bool" where
  "owns A E s \<longleftrightarrow>
     inj_on (handle s) (keys A s) \<and>
     E \<inter> handle s ` keys A s = {} \<and>
     dom (gl_objects s) = E \<union> handle s ` keys A s \<and>
     (\<forall>g \<in> dom (gl_objects s). g < gl_next s)"

definition has_cells :: "(nat \<times> nat) set \<Rightarrow> (nat \<Rightarrow> nat \<Rightarrow> int) \<Rightarrow> world \<Rightarrow> bool" where
  "has_cells A f s \<longleftrightarrow> (\<forall>(i, j) \<in> A. cell_at s i j = generated (f i j))"

definition grid :: "(nat \<times> nat) set" where
  "grid = {..<10} \<times> {..<10}"

definition row :: "nat \<Rightarrow> (nat \<times> nat) set" where
  "row r = {..<10} \<times> {r}"

definition delete_cell :: "nat \<Rightarrow> nat \<Rightarrow> world \<Rightarrow> world" where
  \<comment> \<open>the body of the deleting loop\<close>
  "delete_cell r n s =
     (let s = kuhl_geometry_delete (building s n r) s;
          s = kuhl_geometry_delete (windows s n r) s
      in if isComplex s n r = 1
         then let s = kuhl_geometry_delete (buildingTop s n r) s
              in kuhl_geometry_delete (windowsTop s n r) s
         else s)"

definition unmoved :: "world \<Rightarrow> world \<Rightarrow> bool" where
  \<comment> \<open>the globals that only \<^verbatim>\<open>keyboard\<close> and \<^verbatim>\<open>display\<close> assign, and the ghost log\<close>
  "unmoved s s' \<longleftrightarrow>
     shift s' = shift s \<and> shiftBreak s' = shiftBreak s \<and> roads s' = roads s \<and>
     recycled s' = recycled s"

definition slot :: "world \<Rightarrow> nat \<Rightarrow> nat \<Rightarrow> kuhl_geometry \<times> kuhl_geometry \<times> kuhl_geometry \<times> kuhl_geometry \<times> int" where
  \<comment> \<open>the entries of the five arrays at one index\<close>
  "slot s i j = (building s i j, windows s i j, buildingTop s i j, windowsTop s i j, isComplex s i j)"

definition env :: "world \<Rightarrow> (kuhl_geometry \<rightharpoonup> mesh) \<times> kuhl_geometry \<times> int \<times> rat \<times> int \<times> kuhl_geometry \<times> recycle list" where
  \<comment> \<open>everything but the five arrays\<close>
  "env s = (gl_objects s, gl_next s, rand48 s, shift s, shiftBreak s, roads s, recycled s)"

text \<open>
  The invariants of the grid. \<open>inv\<close>: every slot of the 10 \<times> 10 grid holds a generated
  building, the slots own distinct live objects, and the live objects are exactly these
  and the road. \<open>city\<close>: the slot \<open>(i, j)\<close> holds the building of the lattice coordinate
  \<open>(i, j - shiftBreak)\<close>.
\<close>

definition inv :: "world \<Rightarrow> bool" where
  "inv s \<longleftrightarrow> owns grid {roads s} s \<and> (\<exists>f. has_cells grid f s)"

definition city :: "world \<Rightarrow> bool" where
  "city s \<longleftrightarrow> has_cells grid (\<lambda>i j. getSeed (int i) (int j - shiftBreak s)) s"

definition complete :: "mesh \<Rightarrow> bool" where
  \<comment> \<open>three coordinates, normal and colour components for each vertex, and index data
      for its triangles (two triangles for each four vertices)\<close>
  "complete m \<longleftrightarrow>
     length (in_Position m) = 3 * vertex_count m \<and>
     length (in_Normal m) = 3 * vertex_count m \<and>
     length (in_Color m) = 3 * vertex_count m \<and>
     2 * length (indices m) = 3 * vertex_count m"

definition populated :: "world \<Rightarrow> nat \<Rightarrow> nat \<Rightarrow> bool" where
  "populated s i j \<longleftrightarrow>
     (\<exists>m. gl_objects s (building s i j) = Some m \<and> complete m) \<and>
     (\<exists>m. gl_objects s (windows s i j) = Some m \<and> complete m) \<and>
     (isComplex s i j = 0 \<or> isComplex s i j = 1) \<and>
     (isComplex s i j = 1 \<longrightarrow>
        (\<exists>m. gl_objects s (buildingTop s i j) = Some m \<and> complete m) \<and>
        (\<exists>m. gl_objects s (windowsTop s i j) = Some m \<and> complete m))"

text \<open>
  Travel. A frame crosses as many lattice boundaries as the floor of the new \<^verbatim>\<open>shift\<close>
  is away from \<^verbatim>\<open>shiftBreak\<close>, and fires as many recycle events as it appends to the
  log. \<open>steady\<close>: every frame of a run crosses at most one boundary.
\<close>

definition boundaries_crossed :: "world \<Rightarrow> key list \<Rightarrow> nat" where
  "boundaries_crossed s ks = nat \<bar>\<lfloor>shift (fold keyboard ks s)\<rfloor> - shiftBreak s\<bar>"

definition recycles_fired :: "world \<Rightarrow> key list \<Rightarrow> nat" where
  "recycles_fired s ks =
     (case frame ks s of None \<Rightarrow> 0 | Some s' \<Rightarrow> length (recycled s') - length (recycled s))"

primrec steady :: "key list list \<Rightarrow> world \<Rightarrow> bool" where
  "steady [] s = True"
| "steady (ks # kss) s =
     (boundaries_crossed s ks \<le> 1 \<and>
      (case frame ks s of None \<Rightarrow> False | Some s' \<Rightarrow> steady kss s'))"

primrec crossings :: "key list list \<Rightarrow> world \<Rightarrow> nat" where
  "crossings [] s = 0"
| "crossings (ks # kss) s =
     boundaries_crossed s ks
     + (case frame ks s of None \<Rightarrow> 0 | Some s' \<Rightarrow> crossings kss s')"

definition initial :: world where
  \<comment> \<open>the program at its first frame, for one start of the random generator and of the
      renderer's names\<close>
  "initial = the (startup 0 1)"

definition released :: "world \<Rightarrow> world \<Rightarrow> nat \<Rightarrow> nat \<Rightarrow> bool" where
  \<comment> \<open>the objects that the slot \<open>(i, j)\<close> owns in \<open>s\<close> are not live in \<open>s'\<close>\<close>
  "released s s' i j \<longleftrightarrow>
     building s i j \<notin> dom (gl_objects s') \<and> windows s i j \<notin> dom (gl_objects s') \<and>
     (isComplex s i j = 1 \<longrightarrow>
        buildingTop s i j \<notin> dom (gl_objects s') \<and> windowsTop s i j \<notin> dom (gl_objects s'))"

definition key_shift :: "key \<Rightarrow> rat \<Rightarrow> rat" where
  \<comment> \<open>what a key event does to \<^verbatim>\<open>shift\<close>\<close>
  "key_shift k x =
     (case k of KEY_SPACE \<Rightarrow> fl (dbl (x - dbl (1 / 10)))
      | KEY_B \<Rightarrow> fl (dbl (x + dbl (1 / 10)))
      | KEY_other \<Rightarrow> x)"

section \<open>Rounding\<close>

lemma pow2_powi: "pow2 e = 2 powi e"
  by (simp add: pow2_def power_int_def power_one_over [symmetric] inverse_eq_divide)

lemma pow2_pos [simp]: "0 < pow2 e"
  by (simp add: pow2_powi)

lemma pow2_add: "pow2 (a + b) = pow2 a * pow2 b"
  by (simp add: pow2_powi power_int_add)

lemma pow2_mono: "a \<le> b \<Longrightarrow> pow2 a \<le> pow2 b"
  by (simp add: pow2_powi power_int_increasing)

lemma pow2_strict_mono: "a < b \<Longrightarrow> pow2 a < pow2 b"
  by (simp add: pow2_powi power_int_strict_increasing)

lemma pow2_nat: "0 \<le> e \<Longrightarrow> pow2 e = of_int (2 ^ nat e)"
  by (simp add: pow2_def)

lemma pow2_neg: "0 \<le> k \<Longrightarrow> pow2 (- k) = 1 / 2 ^ nat k"
  by (simp add: pow2_def)

lemma exponent_bounds:
  assumes "x \<noteq> 0"
  shows "pow2 (exponent x) \<le> \<bar>x\<bar>" and "\<bar>x\<bar> < pow2 (exponent x + 1)"
proof -
  have "pow2 (exponent x) \<le> \<bar>x\<bar> \<and> \<bar>x\<bar> < pow2 (exponent x + 1)"
  proof (cases "1 \<le> \<bar>x\<bar>")
    case True
    define n where "n = \<lfloor>\<bar>x\<bar>\<rfloor>"
    have n: "1 \<le> n" "of_int n \<le> \<bar>x\<bar>" "\<bar>x\<bar> < of_int (n + 1)"
      using True unfolding n_def by (simp add: le_floor_iff, simp, linarith)
    from bitlen_bounds [of n] n(1)
    have b: "2 ^ nat (bitlen n - 1) \<le> n" "n < 2 ^ nat (bitlen n)"
      by simp_all
    have k: "1 \<le> bitlen n"
      using n(1) by (simp add: bitlen_ge_iff_power)
    have e: "exponent x = bitlen n - 1"
      using True by (simp add: exponent_def n_def)
    have "pow2 (bitlen n - 1) = of_int (2 ^ nat (bitlen n - 1))"
      using k by (intro pow2_nat) simp
    also have "\<dots> \<le> of_int n"
      using b(1) by (simp only: of_int_le_iff)
    finally have 1: "pow2 (exponent x) \<le> \<bar>x\<bar>"
      using n(2) e by simp
    have "of_int (n + 1) \<le> (of_int (2 ^ nat (bitlen n)) :: rat)"
      using b(2) by (simp only: of_int_le_iff)
    also have "\<dots> = pow2 (bitlen n)"
      using k by (intro pow2_nat [symmetric]) simp
    finally have 2: "\<bar>x\<bar> < pow2 (exponent x + 1)"
      using n(3) e by simp
    from 1 2 show ?thesis ..
  next
    case False
    define y where "y = 1 / \<bar>x\<bar>"
    define m where "m = \<lceil>y\<rceil> - 1"
    have x: "0 < \<bar>x\<bar>" "\<bar>x\<bar> < 1"
      using False assms by simp_all
    then have y: "1 < y"
      by (simp add: y_def)
    have xy: "\<bar>x\<bar> = 1 / y"
      by (simp add: y_def)
    have m: "1 \<le> m" "of_int m < y" "y \<le> of_int (m + 1)"
      using y unfolding m_def by (simp add: less_ceiling_iff, linarith, simp)
    from bitlen_bounds [of m] m(1)
    have b: "2 ^ nat (bitlen m - 1) \<le> m" "m < 2 ^ nat (bitlen m)"
      by simp_all
    have k: "1 \<le> bitlen m"
      using m(1) by (simp add: bitlen_ge_iff_power)
    have e: "exponent x = - bitlen m"
      using False by (simp add: exponent_def m_def y_def)
    have "y \<le> of_int (m + 1)" by fact
    also have "\<dots> \<le> (of_int (2 ^ nat (bitlen m)) :: rat)"
      using b(2) by (simp only: of_int_le_iff)
    finally have "y \<le> 2 ^ nat (bitlen m)"
      by simp
    then have "1 / 2 ^ nat (bitlen m) \<le> 1 / y"
      using y by (simp add: frac_le)
    then have 1: "pow2 (exponent x) \<le> \<bar>x\<bar>"
      unfolding e xy using k by (simp add: pow2_neg)
    have "(of_int (2 ^ nat (bitlen m - 1)) :: rat) \<le> of_int m"
      using b(1) by (simp only: of_int_le_iff)
    then have "(of_int (2 ^ nat (bitlen m - 1)) :: rat) < y"
      using m(2) by (rule le_less_trans)
    then have "2 ^ nat (bitlen m - 1) < y"
      by simp
    then have "1 / y < 1 / 2 ^ nat (bitlen m - 1)"
      by (simp add: frac_less2)
    moreover have "pow2 (- bitlen m + 1) = 1 / 2 ^ nat (bitlen m - 1)"
      using pow2_neg [of "bitlen m - 1"] k by simp
    ultimately have 2: "\<bar>x\<bar> < pow2 (exponent x + 1)"
      unfolding e xy by simp
    from 1 2 show ?thesis ..
  qed
  then show "pow2 (exponent x) \<le> \<bar>x\<bar>" and "\<bar>x\<bar> < pow2 (exponent x + 1)"
    by simp_all
qed

lemma exponent_minus [simp]: "exponent (- x) = exponent x"
  by (simp add: exponent_def)

lemma exponent_mono:
  assumes "x \<noteq> 0" and "\<bar>x\<bar> \<le> \<bar>y\<bar>"
  shows "exponent x \<le> exponent y"
proof (rule ccontr)
  assume "\<not> exponent x \<le> exponent y"
  then have "exponent y + 1 \<le> exponent x" by simp
  then have "pow2 (exponent y + 1) \<le> pow2 (exponent x)"
    by (rule pow2_mono)
  moreover have "y \<noteq> 0" using assms by auto
  ultimately show False
    using exponent_bounds(1) [OF assms(1)] exponent_bounds(2) [of y] assms(2) by simp
qed

lemma nearest_even_bounds: "\<lfloor>q\<rfloor> \<le> nearest_even q" "nearest_even q \<le> \<lfloor>q\<rfloor> + 1"
  by (simp_all add: nearest_even_def Let_def)

lemma nearest_even_of_int [simp]: "nearest_even (of_int n) = n"
  by (simp add: nearest_even_def)

lemma nearest_even_mono:
  assumes "q \<le> q'"
  shows "nearest_even q \<le> nearest_even q'"
proof (cases "\<lfloor>q\<rfloor> = \<lfloor>q'\<rfloor>")
  case True
  then show ?thesis
    using assms by (auto simp: nearest_even_def Let_def)
next
  case False
  then have "\<lfloor>q\<rfloor> + 1 \<le> \<lfloor>q'\<rfloor>"
    using floor_mono [OF assms] by simp
  then show ?thesis
    using nearest_even_bounds(2) [of q] nearest_even_bounds(1) [of q'] by simp
qed

lemma nearest_even_minus: "nearest_even (- q) = - nearest_even q"
proof (cases "q = of_int \<lfloor>q\<rfloor>")
  case True
  then obtain n where "q = of_int n" ..
  then have "- q = of_int (- n)" by simp
  then show ?thesis
    unfolding \<open>q = of_int n\<close> by (simp only: nearest_even_of_int flip: of_int_minus)
next
  case False
  define n where "n = \<lfloor>q\<rfloor>"
  define r where "r = q - of_int n"
  have r: "0 < r" "r < 1"
    using False unfolding r_def n_def by (simp add: less_le, linarith)
  have f: "\<lfloor>- q\<rfloor> = - n - 1"
    using r unfolding r_def by (intro floor_unique) simp_all
  have r': "- q - of_int (- n - 1) = 1 - r"
    by (simp add: r_def)
  show ?thesis
    unfolding nearest_even_def Let_def f r' n_def [symmetric] r_def [symmetric]
    using r by auto
qed

lemma round_to_minus: "round_to p (- x) = - round_to p x"
  by (simp add: round_to_def Let_def nearest_even_minus)

lemma round_to_pos_bounds:
  assumes "0 < p" and "0 < x"
  shows "pow2 (exponent x) \<le> round_to p x" and "round_to p x \<le> pow2 (exponent x + 1)"
proof -
  define e where "e = exponent x"
  define u where "u = pow2 (e - int p + 1)"
  have u: "0 < u" by (simp add: u_def)
  have x: "pow2 e \<le> x" "x < pow2 (e + 1)"
    using exponent_bounds [of x] assms(2) by (simp_all add: e_def)
  have lo: "pow2 e = of_int (2 ^ nat (int p - 1)) * u"
    using pow2_add [of "int p - 1" "e - int p + 1"] pow2_nat [of "int p - 1"] assms(1)
    by (simp add: u_def)
  have hi: "pow2 (e + 1) = of_int (2 ^ nat (int p)) * u"
    using pow2_add [of "int p" "e - int p + 1"] pow2_nat [of "int p"]
    by (simp add: u_def)
  have "of_int (2 ^ nat (int p - 1)) \<le> x / u"
    using x(1) u unfolding lo by (simp add: pos_le_divide_eq)
  from nearest_even_mono [OF this]
  have 1: "2 ^ nat (int p - 1) \<le> nearest_even (x / u)"
    by (simp only: nearest_even_of_int)
  have "x / u \<le> of_int (2 ^ nat (int p))"
    using x(2) u unfolding hi by (simp add: pos_divide_le_eq)
  from nearest_even_mono [OF this]
  have 2: "nearest_even (x / u) \<le> 2 ^ nat (int p)"
    by (simp only: nearest_even_of_int)
  have r: "round_to p x = of_int (nearest_even (x / u)) * u"
    using assms(2) by (simp add: round_to_def u_def e_def Let_def)
  have "of_int (2 ^ nat (int p - 1)) * u \<le> of_int (nearest_even (x / u)) * u"
    using 1 u by (intro mult_right_mono) (simp_all only: of_int_le_iff less_imp_le)
  then show "pow2 (exponent x) \<le> round_to p x"
    unfolding r lo [symmetric] e_def .
  have "of_int (nearest_even (x / u)) * u \<le> of_int (2 ^ nat (int p)) * u"
    using 2 u by (intro mult_right_mono) (simp_all only: of_int_le_iff less_imp_le)
  then show "round_to p x \<le> pow2 (exponent x + 1)"
    unfolding r hi [symmetric] e_def .
qed

lemma round_to_zero [simp]: "round_to p 0 = 0"
  by (simp add: round_to_def)

lemma round_to_mono_pos:
  assumes p: "0 < p" and x: "0 < x" and xy: "x \<le> y"
  shows "round_to p x \<le> round_to p y"
proof -
  have y: "0 < y" using x xy by simp
  have e: "exponent x \<le> exponent y"
    using x xy by (intro exponent_mono) simp_all
  show ?thesis
  proof (cases "exponent x = exponent y")
    case True
    define u where "u = pow2 (exponent x - int p + 1)"
    have u: "0 < u" by (simp add: u_def)
    have "x / u \<le> y / u"
      using xy u by (simp add: divide_right_mono)
    from nearest_even_mono [OF this]
    have "of_int (nearest_even (x / u)) * u \<le> of_int (nearest_even (y / u)) * u"
      using u by (intro mult_right_mono) (simp_all only: of_int_le_iff less_imp_le)
    then show ?thesis
      using x y True by (simp add: round_to_def u_def Let_def)
  next
    case False
    with e have "exponent x + 1 \<le> exponent y" by simp
    then have "pow2 (exponent x + 1) \<le> pow2 (exponent y)"
      by (rule pow2_mono)
    with round_to_pos_bounds(2) [OF p x] round_to_pos_bounds(1) [OF p y]
    show ?thesis by simp
  qed
qed

lemma round_to_nonneg:
  assumes "0 < p" and "0 \<le> x"
  shows "0 \<le> round_to p x"
proof (cases "x = 0")
  case True
  then show ?thesis by simp
next
  case False
  with assms have "0 < x" by simp
  from round_to_pos_bounds(1) [OF assms(1) this] pow2_pos [of "exponent x"]
  show ?thesis by linarith
qed

lemma round_to_mono:
  assumes p: "0 < p" and xy: "x \<le> y"
  shows "round_to p x \<le> round_to p y"
proof -
  consider "0 < x" | "x \<le> 0" "0 \<le> y" | "y < 0"
    using xy by linarith
  then show ?thesis
  proof cases
    case 1
    with p show ?thesis using xy by (rule round_to_mono_pos)
  next
    case 2
    have "0 \<le> round_to p (- x)"
      using 2(1) p by (intro round_to_nonneg) simp_all
    then have "round_to p x \<le> 0"
      by (simp add: round_to_minus)
    also have "0 \<le> round_to p y"
      using p 2(2) by (rule round_to_nonneg)
    finally show ?thesis .
  next
    case 3
    have "round_to p (- y) \<le> round_to p (- x)"
      using p 3 xy by (intro round_to_mono_pos) simp_all
    then show ?thesis
      by (simp add: round_to_minus)
  qed
qed

lemma fl_mono: "x \<le> y \<Longrightarrow> fl x \<le> fl y"
  unfolding fl_def by (rule round_to_mono) simp

lemma dbl_mono: "x \<le> y \<Longrightarrow> dbl x \<le> dbl y"
  unfolding dbl_def by (rule round_to_mono) simp

lemma fl_zero [simp]: "fl 0 = 0"
  by (simp add: fl_def)

lemma fl_nonneg: "0 \<le> x \<Longrightarrow> 0 \<le> fl x"
  using fl_mono [of 0 x] by simp

section \<open>The window loops\<close>

lemma store_Some:
  "n + length vs \<le> length buf \<Longrightarrow>
   store buf n vs = Some (take n buf @ map Some vs @ drop (n + length vs) buf)"
proof (induction vs arbitrary: buf n)
  case Nil
  then show ?case by simp
next
  case (Cons v vs)
  from Cons.prems have n: "n < length buf" by simp
  have "store (buf[n := Some v]) (Suc n) vs =
        Some (take (Suc n) (buf[n := Some v]) @ map Some vs @ drop (Suc n + length vs) (buf[n := Some v]))"
    using Cons.prems by (intro Cons.IH) simp
  moreover have "take (Suc n) (buf[n := Some v]) = take n buf @ [Some v]"
    using n by (simp add: take_Suc_conv_app_nth)
  ultimately show ?case using n by simp
qed

lemma steps_Nil: "\<not> x < b \<Longrightarrow> steps x b = []"
proof -
  assume "\<not> x < b"
  then have "(b - x) / (ws + wp) \<le> 0"
    by (simp add: ws_def wp_def)
  then have "\<lceil>(b - x) / (ws + wp)\<rceil> \<le> 0"
    by (simp add: ceiling_le_iff)
  then show ?thesis by (simp add: steps_def)
qed

lemma steps_Cons: "x < b \<Longrightarrow> steps x b = x # steps (x + (ws + wp)) b"
proof -
  assume lt: "x < b"
  let ?c = "ws + wp"
  have eq: "(b - (x + ?c)) / ?c = (b - x) / ?c - 1"
    by (simp add: ws_def wp_def field_simps)
  have pos: "0 < (b - x) / ?c"
    using lt by (simp add: ws_def wp_def)
  then have "0 < \<lceil>(b - x) / ?c\<rceil>" by (simp add: less_ceiling_iff)
  then have n: "nat \<lceil>(b - x) / ?c\<rceil> = Suc (nat \<lceil>(b - (x + ?c)) / ?c\<rceil>)"
    unfolding eq ceiling_diff_one by linarith
  have "map (\<lambda>k. x + of_nat k * ?c) [0..<Suc m] = x # map (\<lambda>k. (x + ?c) + of_nat k * ?c) [0..<m]" for m
    by (simp add: upt_conv_Cons map_Suc_upt [symmetric] algebra_simps del: upt_Suc)
  then show ?thesis
    unfolding steps_def n by simp
qed

lemma for_float_steps: "for_float x b body st = for_each (steps x b) body st"
proof (induction x b body st rule: for_float.induct)
  case (1 x b body st)
  show ?case
  proof (cases "x < b")
    case True
    then show ?thesis
      using 1 by (subst for_float.simps) (simp add: steps_Cons split: option.splits)
  next
    case False
    then show ?thesis
      by (subst for_float.simps) (simp add: steps_Nil)
  qed
qed

lemma for_each_append:
  "for_each (xs @ ys) body s = (case for_each xs body s of None \<Rightarrow> None | Some s' \<Rightarrow> for_each ys body s')"
  by (induction xs arbitrary: s) (auto split: option.splits)

lemma for_each_product:
  "for_each xs (\<lambda>x. for_each ys (\<lambda>y. body x y)) s = for_each (List.product xs ys) (\<lambda>(x, y). body x y) s"
proof (induction xs arbitrary: s)
  case Nil
  then show ?case by simp
next
  case (Cons x xs)
  have "for_each (map (Pair x) ys) (\<lambda>(x, y). body x y) t = for_each ys (body x) t" for t
    by (induction ys arbitrary: t) (auto split: option.splits)
  then show ?case
    using Cons by (simp add: for_each_append split: option.splits)
qed

lemma length_steps: "length (steps x b) = nat \<lceil>(b - x) / (ws + wp)\<rceil>"
  by (simp add: steps_def)

lemma steps_bounds:
  assumes "y \<in> set (steps x b)"
  shows "x \<le> y \<and> y < b"
proof -
  from assms obtain k where k: "k < nat \<lceil>(b - x) / (ws + wp)\<rceil>" and y: "y = x + of_nat k * (ws + wp)"
    by (auto simp: steps_def)
  from k have "int k < \<lceil>(b - x) / (ws + wp)\<rceil>" by linarith
  then have "of_int (int k) < (b - x) / (ws + wp)"
    by (simp only: less_ceiling_iff)
  then have "rat_of_nat k * (ws + wp) < b - x"
    by (simp add: ws_def wp_def field_simps)
  moreover have "0 \<le> rat_of_nat k * (ws + wp)"
    by (simp add: ws_def wp_def)
  ultimately show ?thesis using y by simp
qed

lemma horizontal_count:
  "length (steps (w / 2 - (of_int \<lfloor>w / (ws + wp)\<rfloor> * (ws + wp) / 2) + wp / 2) (w - ws))
   = nat \<lfloor>w / (ws + wp)\<rfloor>"
proof -
  define t where "t = w / (ws + wp)"
  define y where "y = (w - ws - (w / 2 - (of_int \<lfloor>t\<rfloor> * (ws + wp) / 2) + wp / 2)) / (ws + wp)"
  have w: "w = t * (3 / 20)"
    by (simp add: t_def ws_def wp_def)
  have y: "y = (t + of_int \<lfloor>t\<rfloor>) / 2 - 14 / 15"
    unfolding y_def w by (simp add: ws_def wp_def field_simps)
  define f where "f = rat_of_int \<lfloor>t\<rfloor>"
  have f: "f \<le> t" "t < f + 1"
    unfolding f_def by linarith+
  have "f - 1 < (t + f) / 2 - 14 / 15"
    using f by (simp add: field_simps)
  moreover have "(t + f) / 2 - 14 / 15 \<le> f"
    using f by (simp add: field_simps)
  ultimately have "of_int \<lfloor>t\<rfloor> - 1 < y" "y \<le> of_int \<lfloor>t\<rfloor>"
    unfolding y f_def by simp_all
  then have "\<lceil>y\<rceil> = \<lfloor>t\<rfloor>"
    by (intro ceiling_unique) simp_all
  then show ?thesis
    by (simp add: length_steps y_def t_def)
qed

lemma vertical_count:
  "length (steps wp (h - ws)) \<le> nat \<lfloor>h / (ws + wp)\<rfloor>"
proof -
  have "(h - ws - wp) / (ws + wp) = h / (ws + wp) - 1"
    by (simp add: ws_def wp_def field_simps)
  then have "\<lceil>(h - ws - wp) / (ws + wp)\<rceil> = \<lceil>h / (ws + wp)\<rceil> - 1"
    by (simp add: ceiling_diff_one)
  moreover have "\<lceil>h / (ws + wp)\<rceil> \<le> \<lfloor>h / (ws + wp)\<rfloor> + 1"
    using ceiling_diff_floor_le_1 [of "h / (ws + wp)"] by simp
  ultimately show ?thesis
    by (simp add: length_steps)
qed

lemma window_quad_Some:
  assumes fit: "fits (Suc k) st" and V: "length (V i j) = 12" and N: "length N = 3"
  shows "\<exists>st'. window_quad V N i j st = Some st' \<and> fits k st' \<and>
           n1 st' = n1 st + 12 \<and> n2 st' = n2 st + 6 \<and> n3 st' = n3 st + 4 \<and>
           rng st' = snd (drand48 (rng st)) \<and>
           length (wVertexPositions st') = length (wVertexPositions st) \<and>
           length (wIndexData st') = length (wIndexData st) \<and>
           wVertexPositions st' =
             take (n1 st) (wVertexPositions st) @ map Some (V i j)
             @ drop (n1 st + 12) (wVertexPositions st)"
proof -
  from fit have a: "n1 st + 12 \<le> length (wVertexPositions st)"
    and b: "n1 st + 12 \<le> length (wNormalData st)"
    and c: "n1 st + 12 \<le> length (wColorData st)"
    and d: "n2 st + 6 \<le> length (wIndexData st)"
    by (simp_all add: fits_def)
  define vp where "vp = take (n1 st) (wVertexPositions st) @ map Some (V i j)
      @ drop (n1 st + 12) (wVertexPositions st)"
  define nd where "nd = take (n1 st) (wNormalData st) @ map Some (N @ N @ N @ N)
      @ drop (n1 st + 12) (wNormalData st)"
  define cd where "cd = (\<lambda>cv. take (n1 st) (wColorData st) @ map Some (cv @ cv @ cv @ cv)
      @ drop (n1 st + 12) (wColorData st))"
  define ix where "ix = (\<lambda>xs. take (n2 st) (wIndexData st) @ map Some xs
      @ drop (n2 st + 6) (wIndexData st))"
  have s1: "store (wVertexPositions st) (n1 st) (V i j) = Some vp"
    using a V by (simp add: store_Some vp_def)
  have s2: "store (wNormalData st) (n1 st) (N @ N @ N @ N) = Some nd"
    using b N by (simp add: store_Some nd_def)
  have s3: "length cv = 3 \<Longrightarrow> store (wColorData st) (n1 st) (cv @ cv @ cv @ cv) = Some (cd cv)" for cv
    using c by (simp add: store_Some cd_def)
  have s4: "length xs = 6 \<Longrightarrow> store (wIndexData st) (n2 st) xs = Some (ix xs)" for xs
    using d by (simp add: store_Some ix_def)
  have l1: "length vp = length (wVertexPositions st)"
    using a V by (simp add: vp_def)
  have l2: "length nd = length (wNormalData st)"
    using b N by (simp add: nd_def)
  have l3: "length cv = 3 \<Longrightarrow> length (cd cv) = length (wColorData st)" for cv
    using c by (simp add: cd_def)
  have l4: "length xs = 6 \<Longrightarrow> length (ix xs) = length (wIndexData st)" for xs
    using d by (simp add: ix_def)
  have "fits k (st\<lparr>wVertexPositions := vp, wNormalData := nd, wColorData := cd cv,
              wIndexData := ix xs, rng := X',
              n1 := n1 st + 12, n2 := n2 st + 6, n3 := n3 st + 4\<rparr>)"
    if "length cv = 3" "length xs = 6" for cv xs X'
    using fit that by (simp add: fits_def l1 l2 l3 l4)
  then show ?thesis
    by (simp add: window_quad_def s1 s2 s3 s4 l1 l2 l3 l4 randomRange_def drand48_def Let_def
          vp_def [symmetric] split: prod.splits del: store.simps)
qed

lemma quads_Some:
  assumes V: "\<And>i j. length (V i j) = 12" and N: "length N = 3"
  shows "fits (length qs + k) st \<Longrightarrow>
         \<exists>st'. for_each qs (\<lambda>(i, j). window_quad V N i j) st = Some st' \<and> fits k st' \<and>
           n1 st' = n1 st + 12 * length qs \<and> n2 st' = n2 st + 6 * length qs \<and>
           n3 st' = n3 st + 4 * length qs \<and>
           length (wVertexPositions st') = length (wVertexPositions st) \<and>
           length (wIndexData st') = length (wIndexData st) \<and>
           wVertexPositions st' =
             take (n1 st) (wVertexPositions st) @ map Some (concat (map (\<lambda>(i, j). V i j) qs))
             @ drop (n1 st + 12 * length qs) (wVertexPositions st)"
proof (induction qs arbitrary: st)
  case Nil
  then show ?case by simp
next
  case (Cons q qs)
  obtain i j where q: "q = (i, j)" by (cases q)
  from Cons.prems have "fits (Suc (length qs + k)) st" by simp
  from window_quad_Some [where V = V and i = i and j = j, OF this V N]
  obtain st1 where 1: "window_quad V N i j st = Some st1" "fits (length qs + k) st1"
    "n1 st1 = n1 st + 12" "n2 st1 = n2 st + 6" "n3 st1 = n3 st + 4"
    "length (wVertexPositions st1) = length (wVertexPositions st)"
    "length (wIndexData st1) = length (wIndexData st)"
    "wVertexPositions st1 = take (n1 st) (wVertexPositions st) @ map Some (V i j)
             @ drop (n1 st + 12) (wVertexPositions st)"
    by blast
  from Cons.IH [OF 1(2)]
  obtain st' where 2: "for_each qs (\<lambda>(i, j). window_quad V N i j) st1 = Some st'" "fits k st'"
    "n1 st' = n1 st1 + 12 * length qs" "n2 st' = n2 st1 + 6 * length qs"
    "n3 st' = n3 st1 + 4 * length qs"
    "length (wVertexPositions st') = length (wVertexPositions st1)"
    "length (wIndexData st') = length (wIndexData st1)"
    "wVertexPositions st' =
             take (n1 st1) (wVertexPositions st1) @ map Some (concat (map (\<lambda>(i, j). V i j) qs))
             @ drop (n1 st1 + 12 * length qs) (wVertexPositions st1)"
    by blast
  from Cons.prems have le: "n1 st + 12 \<le> length (wVertexPositions st)"
    by (simp add: fits_def)
  have tk: "take (n1 st1) (wVertexPositions st1) = take (n1 st) (wVertexPositions st) @ map Some (V i j)"
    using le V [of i j] by (simp add: 1)
  have dr: "drop (n1 st1 + 12 * length qs) (wVertexPositions st1)
      = drop (n1 st + 12 * length (q # qs)) (wVertexPositions st)"
    using le V [of i j] by (simp add: 1 ac_simps)
  have vp': "wVertexPositions st' =
      take (n1 st) (wVertexPositions st) @ map Some (concat (map (\<lambda>(i, j). V i j) (q # qs)))
      @ drop (n1 st + 12 * length (q # qs)) (wVertexPositions st)"
    unfolding 2(8) tk dr by (simp add: q)
  have "for_each (q # qs) (\<lambda>(i, j). window_quad V N i j) st = Some st'"
    using 1(1) 2(1) by (simp add: q)
  moreover have "n1 st' = n1 st + 12 * length (q # qs)" "n2 st' = n2 st + 6 * length (q # qs)"
    "n3 st' = n3 st + 4 * length (q # qs)"
    using 1(3-5) 2(3-5) by simp_all
  moreover have "length (wVertexPositions st') = length (wVertexPositions st)"
    "length (wIndexData st') = length (wIndexData st)"
    using 1(6,7) 2(6,7) by simp_all
  ultimately show ?case
    using 2(2) vp' by blast
qed

lemma length_window_places:
  "0 \<le> total_windows w h \<Longrightarrow> length (window_places w h) \<le> nat (total_windows w h)"
proof -
  assume tw: "0 \<le> total_windows w h"
  let ?hw = "\<lfloor>w / (ws + wp)\<rfloor>" and ?vw = "\<lfloor>h / (ws + wp)\<rfloor>"
  have len: "length (window_places w h) = nat ?hw * length (steps wp (h - ws))"
    by (simp add: window_places_def horizontal_count)
  show ?thesis
  proof (cases "0 < ?hw")
    case True
    with tw have "0 \<le> ?vw"
      by (simp add: total_windows_def zero_le_mult_iff)
    have "nat ?hw * length (steps wp (h - ws)) \<le> nat ?hw * nat ?vw"
      by (intro mult_le_mono2 vertical_count)
    also have "\<dots> = nat (?hw * ?vw)"
      using True by (simp add: nat_mult_distrib)
    finally show ?thesis
      by (simp add: len total_windows_def)
  next
    case False
    then show ?thesis by (simp add: len)
  qed
qed

lemma face_loop_places:
  "face_loop w h \<lfloor>w / (ws + wp)\<rfloor> V N st = for_each (window_places w h) (\<lambda>(i, j). window_quad V N i j) st"
proof -
  have "for_float x b body = for_each (steps x b) body"
    for x b and body :: "rat \<Rightarrow> wstate \<Rightarrow> wstate option"
    by (rule ext) (rule for_float_steps)
  then show ?thesis
    by (simp add: face_loop_def for_each_product window_places_def)
qed

lemma length_concat_quads:
  "(\<And>i j. length (V i j) = 12) \<Longrightarrow> length (concat (map (\<lambda>(i, j). V i j) qs)) = 12 * length qs"
  by (induction qs) auto

lemma window_arrays_Some:
  assumes tw: "0 \<le> total_windows w h"
  defines "qs \<equiv> window_places w h"
  shows "\<exists>st. window_arrays fud sh w h \<lfloor>w / (ws + wp)\<rfloor> (total_windows w h) X = Some st \<and>
           n1 st = 36 * length qs \<and> n2 st = 18 * length qs \<and> n3 st = 12 * length qs \<and>
           length (wVertexPositions st) = nat (total_windows w h * 4 * 3 * 3) \<and>
           length (wNormalData st) = nat (total_windows w h * 4 * 3 * 3) \<and>
           length (wColorData st) = nat (total_windows w h * 4 * 3 * 3) \<and>
           length (wIndexData st) = nat (total_windows w h * 4 * 3 * 3 div 2) \<and>
           wVertexPositions st =
             map Some (concat (map (\<lambda>(i, j). front_vertices fud sh i j) qs)
                       @ concat (map (\<lambda>(i, j). left_vertices fud sh i j) qs)
                       @ concat (map (\<lambda>(i, j). right_vertices fud sh w i j) qs))
             @ replicate (nat (total_windows w h * 4 * 3 * 3) - 36 * length qs) None"
proof -
  let ?tw = "total_windows w h"
  let ?hw = "\<lfloor>w / (ws + wp)\<rfloor>"
  define st0 :: wstate where "st0 = \<lparr>wVertexPositions = replicate (nat (?tw * 4 * 3 * 3)) None,
                  wNormalData = replicate (nat (?tw * 4 * 3 * 3)) None,
                  wColorData = replicate (nat (?tw * 4 * 3 * 3)) None,
                  wIndexData = replicate (nat (?tw * 4 * 3 * 3 div 2)) None,
                  n1 = 0, n2 = 0, n3 = 0, rng = X\<rparr>"
  have le: "length qs \<le> nat ?tw"
    unfolding qs_def by (rule length_window_places [OF tw])
  have "?tw * 4 * 3 * 3 = 36 * ?tw" "?tw * 4 * 3 * 3 div 2 = 18 * ?tw"
    by simp_all
  then have L: "nat (?tw * 4 * 3 * 3) = 36 * nat ?tw" "nat (?tw * 4 * 3 * 3 div 2) = 18 * nat ?tw"
    by (simp_all only: nat_mult_distrib) simp_all
  have Nf: "length [0::rat, 0, 1] = 3" and Ns: "length [1::rat, 0, 0] = 3"
    by simp_all
  have Vf: "\<And>i j. length (front_vertices fud sh i j) = 12"
    and Vl: "\<And>i j. length (left_vertices fud sh i j) = 12"
    and Vr: "\<And>i j. length (right_vertices fud sh w i j) = 12"
    by (simp_all add: front_vertices_def left_vertices_def right_vertices_def)
  have "12 * (length qs + (length qs + length qs)) \<le> nat (?tw * 4 * 3 * 3)"
    "6 * (length qs + (length qs + length qs)) \<le> nat (?tw * 4 * 3 * 3 div 2)"
    unfolding L using le by simp_all
  then have "fits (length qs + (length qs + length qs)) st0"
    unfolding fits_def st0_def by (simp only: wstate.simps length_replicate add_0)
  from quads_Some [where V = "front_vertices fud sh" and N = "[0, 0, 1]", OF Vf Nf this]
  obtain st1 where 1: "for_each qs (\<lambda>(i, j). window_quad (front_vertices fud sh) [0, 0, 1] i j) st0 = Some st1"
    "fits (length qs + length qs) st1"
    "n1 st1 = n1 st0 + 12 * length qs" "n2 st1 = n2 st0 + 6 * length qs" "n3 st1 = n3 st0 + 4 * length qs"
    "length (wVertexPositions st1) = length (wVertexPositions st0)"
    "length (wIndexData st1) = length (wIndexData st0)"
    "wVertexPositions st1 = take (n1 st0) (wVertexPositions st0)
       @ map Some (concat (map (\<lambda>(i, j). front_vertices fud sh i j) qs))
       @ drop (n1 st0 + 12 * length qs) (wVertexPositions st0)"
    by blast
  from quads_Some [where V = "left_vertices fud sh" and N = "[1, 0, 0]", OF Vl Ns 1(2)]
  obtain st2 where 2: "for_each qs (\<lambda>(i, j). window_quad (left_vertices fud sh) [1, 0, 0] i j) st1 = Some st2"
    "fits (length qs) st2"
    "n1 st2 = n1 st1 + 12 * length qs" "n2 st2 = n2 st1 + 6 * length qs" "n3 st2 = n3 st1 + 4 * length qs"
    "length (wVertexPositions st2) = length (wVertexPositions st1)"
    "length (wIndexData st2) = length (wIndexData st1)"
    "wVertexPositions st2 = take (n1 st1) (wVertexPositions st1)
       @ map Some (concat (map (\<lambda>(i, j). left_vertices fud sh i j) qs))
       @ drop (n1 st1 + 12 * length qs) (wVertexPositions st1)"
    by blast
  from 2(2) have "fits (length qs + 0) st2" by simp
  from quads_Some [where V = "right_vertices fud sh w" and N = "[1, 0, 0]", OF Vr Ns this]
  obtain st3 where 3: "for_each qs (\<lambda>(i, j). window_quad (right_vertices fud sh w) [1, 0, 0] i j) st2 = Some st3"
    "fits 0 st3"
    "n1 st3 = n1 st2 + 12 * length qs" "n2 st3 = n2 st2 + 6 * length qs" "n3 st3 = n3 st2 + 4 * length qs"
    "length (wVertexPositions st3) = length (wVertexPositions st2)"
    "length (wIndexData st3) = length (wIndexData st2)"
    "wVertexPositions st3 = take (n1 st2) (wVertexPositions st2)
       @ map Some (concat (map (\<lambda>(i, j). right_vertices fud sh w i j) qs))
       @ drop (n1 st2 + 12 * length qs) (wVertexPositions st2)"
    by blast
  have run: "window_arrays fud sh w h ?hw ?tw X = Some st3"
    unfolding window_arrays_def Let_def st0_def [symmetric] face_loop_places qs_def [symmetric]
    using tw 1(1) 2(1) 3(1) by simp
  have n: "n1 st3 = 36 * length qs" "n2 st3 = 18 * length qs" "n3 st3 = 12 * length qs"
    using 1(3-5) 2(3-5) 3(3-5) by (simp_all add: st0_def)
  have lens: "length (wVertexPositions st3) = nat (?tw * 4 * 3 * 3)"
    "length (wIndexData st3) = nat (?tw * 4 * 3 * 3 div 2)"
    using 1(6,7) 2(6,7) 3(6,7) by (simp_all add: st0_def)
  have lens': "length (wNormalData st3) = nat (?tw * 4 * 3 * 3)"
    "length (wColorData st3) = nat (?tw * 4 * 3 * 3)"
    using 3(2) lens by (simp_all add: fits_def)
  let ?F = "concat (map (\<lambda>(i, j). front_vertices fud sh i j) qs)"
  let ?L = "concat (map (\<lambda>(i, j). left_vertices fud sh i j) qs)"
  let ?R = "concat (map (\<lambda>(i, j). right_vertices fud sh w i j) qs)"
  have lF: "length ?F = 12 * length qs" and lL: "length ?L = 12 * length qs"
    and lR: "length ?R = 12 * length qs"
    using Vf Vl Vr by (simp_all add: length_concat_quads)
  have v1: "wVertexPositions st1 = map Some ?F @ replicate (36 * nat ?tw - 12 * length qs) None"
    unfolding 1(8) by (simp add: st0_def L)
  have n1: "n1 st1 = 12 * length qs"
    using 1(3) by (simp add: st0_def)
  have v2: "wVertexPositions st2 = map Some ?F @ map Some ?L @ replicate (36 * nat ?tw - 24 * length qs) None"
    unfolding 2(8) v1 n1 using le by (simp add: lF)
  have n2: "n1 st2 = 24 * length qs"
    using 2(3) n1 by simp
  have v3: "wVertexPositions st3 = map Some ?F @ map Some ?L @ map Some ?R @ replicate (36 * nat ?tw - 36 * length qs) None"
    unfolding 3(8) v2 n2 using le by (simp add: lF lL)
  have v3': "wVertexPositions st3 = map Some (?F @ ?L @ ?R)
      @ replicate (nat (?tw * 4 * 3 * 3) - 36 * length qs) None"
    unfolding v3 L by (simp only: map_append append_assoc)
  show ?thesis
  proof (intro exI [of _ st3] conjI)
    show "window_arrays fud sh w h ?hw ?tw X = Some st3" by (rule run)
    show "n1 st3 = 36 * length qs" "n2 st3 = 18 * length qs" "n3 st3 = 12 * length qs"
      by (rule n)+
    show "length (wVertexPositions st3) = nat (?tw * 4 * 3 * 3)"
      "length (wIndexData st3) = nat (?tw * 4 * 3 * 3 div 2)"
      by (rule lens)+
    show "length (wNormalData st3) = nat (?tw * 4 * 3 * 3)"
      "length (wColorData st3) = nat (?tw * 4 * 3 * 3)"
      by (rule lens')+
    show "wVertexPositions st3 = map Some (?F @ ?L @ ?R)
      @ replicate (nat (?tw * 4 * 3 * 3) - 36 * length qs) None"
      by (rule v3')
  qed
qed

section \<open>The generator as a function of the seed\<close>

lemma draw_main_building_eq:
  "draw_main_building fud sh w h s =
     (gl_next s, s\<lparr>gl_objects := (gl_objects s)(gl_next s \<mapsto> shell_mesh fud sh w h),
                  gl_next := Suc (gl_next s)\<rparr>)"
  by (simp add: draw_main_building_def kuhl_geometry_new_def kuhl_geometry_attrib_def
      kuhl_geometry_indices_def shell_mesh_def Let_def)

lemma draw_windows_eq:
  "draw_windows fud sh w h s =
     map_option (\<lambda>st. (gl_next s,
         s\<lparr>rand48 := rng st,
           gl_objects := (gl_objects s)(gl_next s \<mapsto> windows_mesh (nat (total_windows w h * 4 * 3)) st),
           gl_next := Suc (gl_next s)\<rparr>))
       (tier_windows fud sh w h (rand48 s))"
  by (cases "tier_windows fud sh w h (rand48 s)")
     (simp_all add: draw_windows_def kuhl_geometry_new_def kuhl_geometry_attrib_def
      kuhl_geometry_indices_def windows_mesh_def Let_def tier_windows_def total_windows_def)

lemma top_dimensions_eq:
  "top_dimensions oldW s = (fst (top_dims oldW (rand48 s)), s\<lparr>rand48 := snd (top_dims oldW (rand48 s))\<rparr>)"
  by (simp add: top_dimensions_def top_dims_def random_world_def Let_def split: prod.splits)

lemma init_geometryBuilding_generate:
  "init_geometryBuilding i j seed s =
     map_option (\<lambda>(p, X). (if p_top p = None then 0 else 1, install i j p X s)) (generate seed)"
  by (simp add: init_geometryBuilding_def generate_def random_world_def draw_main_building_eq
      draw_windows_eq top_dimensions_eq install_def Let_def case_prod_beta
      split: option.splits)

lemma drand48_range: "0 \<le> fst (drand48 X) \<and> fst (drand48 X) < 1"
proof -
  have "0 \<le> (25214903917 * X + 11) mod 2 ^ 48" "(25214903917 * X + 11) mod 2 ^ 48 < (2 ^ 48 :: int)"
    by simp_all
  then have "0 \<le> rat_of_int ((25214903917 * X + 11) mod 2 ^ 48)"
    "rat_of_int ((25214903917 * X + 11) mod 2 ^ 48) < rat_of_int (2 ^ 48)"
    by (simp_all only: of_int_0_le_iff of_int_less_iff)
  then show ?thesis
    by (simp add: drand48_def Let_def)
qed

lemma randomRange_eq:
  "randomRange start end X = (fst (drand48 X) * (end - start) + start, snd (drand48 X))"
  by (simp add: randomRange_def Let_def case_prod_beta)

lemma randomRange_bounds:
  assumes "start \<le> end"
  shows "start \<le> fst (randomRange start end X)" and "fst (randomRange start end X) \<le> end"
proof -
  let ?n = "fst (drand48 X)"
  have n: "0 \<le> ?n" "?n \<le> 1"
    using drand48_range [of X] by simp_all
  have "0 \<le> ?n * (end - start)"
    using n assms by simp
  then show "start \<le> fst (randomRange start end X)"
    by (simp add: randomRange_eq)
  have "?n * (end - start) \<le> 1 * (end - start)"
    using n assms by (intro mult_right_mono) simp_all
  then show "fst (randomRange start end X) \<le> end"
    by (simp add: randomRange_eq)
qed

lemma total_windows_nonneg: "0 \<le> w \<Longrightarrow> 0 \<le> h \<Longrightarrow> 0 \<le> total_windows w h"
  by (simp add: total_windows_def ws_def wp_def)

lemma tier_windows_Some:
  "0 \<le> w \<Longrightarrow> 0 \<le> h \<Longrightarrow> \<exists>st. tier_windows fud sh w h X = Some st"
  using window_arrays_Some [OF total_windows_nonneg, of w h fud sh X]
  unfolding tier_windows_def by blast

lemma top_dims_bounds:
  assumes "ws + wp \<le> oldW" and "top_dims oldW X = ((w, h, fud), X')"
  shows "ws + wp \<le> w" and "w \<le> oldW" and "1 / 2 \<le> h" and "h \<le> 3 / 2"
    and "0 \<le> fud" and "fud \<le> (oldW - w) / 2"
proof -
  define w0 where "w0 = fst (randomRange (ws + wp) oldW X)"
  define X1 where "X1 = snd (randomRange (ws + wp) oldW X)"
  define X2 where "X2 = snd (randomRange (5 / 10) (15 / 10) X1)"
  have w0: "ws + wp \<le> w0" "w0 \<le> oldW"
    unfolding w0_def using randomRange_bounds [OF assms(1)] by simp_all
  have w: "w = (if w0 + 15 / 100 < oldW then w0 + 15 / 100 else w0)"
    and h: "h = fst (randomRange (5 / 10) (15 / 10) X1)"
    and fud: "fud = fst (randomRange 0 ((oldW - w) / 2) X2)"
    using assms(2)
    by (auto simp: top_dims_def Let_def case_prod_beta w0_def X1_def X2_def split: if_splits)
  show "ws + wp \<le> w" and le: "w \<le> oldW"
    using w0 by (simp_all add: w)
  show "1 / 2 \<le> h" "h \<le> 3 / 2"
    unfolding h using randomRange_bounds [of "5 / 10" "15 / 10" X1] by simp_all
  have "0 \<le> (oldW - w) / 2"
    using le by simp
  from randomRange_bounds [OF this]
  show "0 \<le> fud" "fud \<le> (oldW - w) / 2"
    unfolding fud by simp_all
qed

lemma generate_Some: "\<exists>p X. generate seed = Some (p, X)"
proof -
  have base: "tier_windows 0 0 w h X2 \<noteq> None"
    if "randomRange (4 / 10) (8 / 10) X0 = (w, X1)" "randomRange (8 / 10) (22 / 10) X1 = (h, X2)"
    for w h X0 X1 X2
  proof -
    have "4 / 10 \<le> fst (randomRange (4 / 10) (8 / 10) X0)"
      "8 / 10 \<le> fst (randomRange (8 / 10) (22 / 10) X1)"
      by (rule randomRange_bounds, simp)+
    then have "0 \<le> w" "0 \<le> h" using that by simp_all
    from tier_windows_Some [OF this] show ?thesis by simp
  qed
  have top: "tier_windows fud h w' h' X4 \<noteq> None"
    if "randomRange (4 / 10) (8 / 10) X0 = (w, X1)" "randomRange (8 / 10) (22 / 10) X1 = (h, X2)"
      "top_dims w X3 = ((w', h', fud), X4)"
    for w h w' h' fud X0 X1 X2 X3 X4
  proof -
    have "4 / 10 \<le> fst (randomRange (4 / 10) (8 / 10) X0)"
      by (rule randomRange_bounds) simp
    then have "ws + wp \<le> w" using that(1) by (simp add: ws_def wp_def)
    from top_dims_bounds [OF this that(3)]
    have "0 \<le> w'" "0 \<le> h'" by (simp_all add: ws_def wp_def)
    from tier_windows_Some [OF this] show ?thesis by simp
  qed
  obtain w X1 where 1: "randomRange (4 / 10) (8 / 10) (srand48 seed) = (w, X1)"
    by fastforce
  obtain h X2 where 2: "randomRange (8 / 10) (22 / 10) X1 = (h, X2)"
    by fastforce
  from base [OF 1 2] obtain st where 3: "tier_windows 0 0 w h X2 = Some st"
    by blast
  obtain c X3 where 4: "randomRange 0 1 (rng st) = (c, X3)"
    by fastforce
  obtain w' h' fud X4 where 5: "top_dims w X3 = ((w', h', fud), X4)"
    by (metis prod_cases3 surj_pair)
  from top [OF 1 2 5] obtain st' where 6: "tier_windows fud h w' h' X4 = Some st'"
    by blast
  show ?thesis
    using 1 2 3 4 5 6 by (simp add: generate_def Let_def)
qed

section \<open>The windows of a face\<close>

lemma for_each_count: "for_each xs (\<lambda>_ n. Some (Suc n)) k = Some (k + length xs)"
  by (induction xs arbitrary: k) simp_all

lemma window_places_bounds:
  assumes "(i, j) \<in> set (window_places w h)"
  shows "0 \<le> i \<and> i + ws \<le> w \<and> 0 \<le> j \<and> j + ws \<le> h"
proof -
  let ?i0 = "w / 2 - (of_int \<lfloor>w / (ws + wp)\<rfloor> * (ws + wp) / 2) + wp / 2"
  from assms have i: "i \<in> set (steps ?i0 (w - ws))" and j: "j \<in> set (steps wp (h - ws))"
    by (simp_all add: window_places_def)
  have "rat_of_int \<lfloor>w / (ws + wp)\<rfloor> \<le> w / (ws + wp)"
    by (rule of_int_floor_le)
  then have "rat_of_int \<lfloor>w / (ws + wp)\<rfloor> * (ws + wp) \<le> w"
    by (simp add: ws_def wp_def field_simps)
  then have "0 \<le> ?i0"
    by (simp add: wp_def)
  with steps_bounds [OF i] steps_bounds [OF j] show ?thesis
    by (simp add: wp_def)
qed

lemma take_drop_concat:
  assumes "\<And>x. length (f x) = n" and "q < length xs"
  shows "take n (drop (n * q) (concat (map f xs))) = f (xs ! q)"
  using assms(2)
proof (induction xs arbitrary: q)
  case Nil
  then show ?case by simp
next
  case (Cons x xs)
  show ?case
  proof (cases q)
    case 0
    then show ?thesis using assms(1) [of x] by simp
  next
    case (Suc q')
    with Cons.prems have "q' < length xs" by simp
    from Cons.IH [OF this] show ?thesis
      using assms(1) [of x] by (simp add: Suc)
  qed
qed

lemma three_blocks:
  assumes "length F = 12 * c" "length L = 12 * c" "length R = 12 * c" "q < c"
  shows "take 12 (drop (12 * q) (map Some (F @ L @ R) @ rest)) = map Some (take 12 (drop (12 * q) F))"
    and "take 12 (drop (12 * (c + q)) (map Some (F @ L @ R) @ rest)) = map Some (take 12 (drop (12 * q) L))"
    and "take 12 (drop (12 * (2 * c + q)) (map Some (F @ L @ R) @ rest)) = map Some (take 12 (drop (12 * q) R))"
  using assms by (simp_all add: take_map drop_map)

lemma window_quads_n1:
  assumes run: "tier_windows fud sh w h X = Some st"
  shows "n1 st = 36 * length (window_places w h)"
proof -
  have tw: "0 \<le> total_windows w h"
    using run by (simp add: tier_windows_def window_arrays_def split: if_splits)
  from window_arrays_Some [OF tw, of fud sh X] run
  show ?thesis
    by (auto simp: tier_windows_def)
qed

lemma window_quads:
  assumes run: "tier_windows fud sh w h X = Some st" and q: "q < length (window_places w h)"
  shows "quad st q = map Some (case_prod (front_vertices fud sh) (window_places w h ! q))"
    and "quad st (length (window_places w h) + q)
          = map Some (case_prod (left_vertices fud sh) (window_places w h ! q))"
    and "quad st (2 * length (window_places w h) + q)
          = map Some (case_prod (right_vertices fud sh w) (window_places w h ! q))"
proof -
  let ?qs = "window_places w h"
  let ?F = "concat (map (\<lambda>(i, j). front_vertices fud sh i j) ?qs)"
  let ?L = "concat (map (\<lambda>(i, j). left_vertices fud sh i j) ?qs)"
  let ?R = "concat (map (\<lambda>(i, j). right_vertices fud sh w i j) ?qs)"
  have tw: "0 \<le> total_windows w h"
    using run by (simp add: tier_windows_def window_arrays_def split: if_splits)
  from window_arrays_Some [OF tw, of fud sh X] run
  have n: "n1 st = 36 * length ?qs"
    and vp: "wVertexPositions st = map Some (?F @ ?L @ ?R)
             @ replicate (nat (total_windows w h * 4 * 3 * 3) - 36 * length ?qs) None"
    by (auto simp: tier_windows_def)
  have len: "length (case_prod (front_vertices fud sh) x) = 12"
    "length (case_prod (left_vertices fud sh) x) = 12"
    "length (case_prod (right_vertices fud sh w) x) = 12" for x
    by (simp_all add: front_vertices_def left_vertices_def right_vertices_def split: prod.splits)
  have lF: "length ?F = 12 * length ?qs" and lL: "length ?L = 12 * length ?qs"
    and lR: "length ?R = 12 * length ?qs"
    by (simp_all add: length_concat_quads front_vertices_def left_vertices_def
        right_vertices_def)
  have inF: "12 * q + 12 \<le> 12 * length ?qs" using q by simp
  have F: "take 12 (drop (12 * q) ?F) = case_prod (front_vertices fud sh) (?qs ! q)"
    and L: "take 12 (drop (12 * q) ?L) = case_prod (left_vertices fud sh) (?qs ! q)"
    and R: "take 12 (drop (12 * q) ?R) = case_prod (right_vertices fud sh w) (?qs ! q)"
    using q by (simp_all add: take_drop_concat len)
  note B = three_blocks [OF lF lL lR q]
  show "quad st q = map Some (case_prod (front_vertices fud sh) (?qs ! q))"
    unfolding quad_def vp B(1) F ..
  show "quad st (length ?qs + q) = map Some (case_prod (left_vertices fud sh) (?qs ! q))"
    unfolding quad_def vp B(2) L ..
  show "quad st (2 * length ?qs + q) = map Some (case_prod (right_vertices fud sh w) (?qs ! q))"
    unfolding quad_def vp B(3) R ..
qed

lemma window_places_Nil:
  assumes "total_windows w h = 0"
  shows "window_places w h = []"
  using length_window_places [of w h] assms by simp

section \<open>Placing a building in a slot\<close>

lemma upd2_apply [simp]: "upd2 a i j v i' j' = (if i' = i \<and> j' = j then v else a i' j')"
  by (simp add: upd2_def)

lemma new_building_place: "new_building i j seed s = Some (place i j seed s)"
proof -
  obtain p X where g: "generate seed = Some (p, X)"
    using generate_Some by blast
  have "isComplex (install i j p X s) = isComplex s"
    by (simp add: install_def Let_def split: option.splits)
  then show ?thesis
    by (auto simp: new_building_def init_geometryBuilding_generate place_def g complexity_def)
qed

lemma complexity_cases: "complexity seed = 0 \<or> complexity seed = 1"
  by (simp add: complexity_def split: option.splits)

lemma place_fields [simp]:
  "building (place i j seed s) = upd2 (building s) i j (gl_next s)"
  "windows (place i j seed s) = upd2 (windows s) i j (Suc (gl_next s))"
  "isComplex (place i j seed s) = upd2 (isComplex s) i j (complexity seed)"
  "buildingTop (place i j seed s) =
     (if complexity seed = 1 then upd2 (buildingTop s) i j (Suc (Suc (gl_next s))) else buildingTop s)"
  "windowsTop (place i j seed s) =
     (if complexity seed = 1 then upd2 (windowsTop s) i j (Suc (Suc (Suc (gl_next s)))) else windowsTop s)"
  "gl_next (place i j seed s) = (if complexity seed = 1 then gl_next s + 4 else gl_next s + 2)"
  "shift (place i j seed s) = shift s"
  "shiftBreak (place i j seed s) = shiftBreak s"
  "roads (place i j seed s) = roads s"
  "recycled (place i j seed s) = recycled s"
  using generate_Some [of seed]
  by (auto simp: place_def install_def complexity_def Let_def split: option.splits)

lemma dom_place:
  "dom (gl_objects (place i j seed s)) =
     dom (gl_objects s) \<union> {gl_next s, Suc (gl_next s)}
     \<union> (if complexity seed = 1 then {Suc (Suc (gl_next s)), Suc (Suc (Suc (gl_next s)))} else {})"
  using generate_Some [of seed]
  by (auto simp: place_def install_def complexity_def Let_def split: option.splits)

lemma objects_place_old:
  "g < gl_next s \<Longrightarrow> gl_objects (place i j seed s) g = gl_objects s g"
  using generate_Some [of seed]
  by (auto simp: place_def install_def complexity_def Let_def split: option.splits)

lemma cell_at_place: "cell_at (place i j seed s) i j = generated seed"
  using generate_Some [of seed]
  by (auto simp: place_def install_def complexity_def generated_def cell_at_def Let_def
      split: option.splits)

lemma handle_less:
  assumes "owns A E s" and "k \<in> keys A s"
  shows "handle s k < gl_next s"
proof -
  from assms have "handle s k \<in> dom (gl_objects s)"
    unfolding owns_def by blast
  with assms(1) show ?thesis
    unfolding owns_def by blast
qed

lemma extra_less:
  assumes "owns A E s" and "g \<in> E"
  shows "g < gl_next s"
  using assms unfolding owns_def by blast

lemma keys_place:
  assumes "(i, j) \<notin> A"
  shows "keys (insert (i, j) A) (place i j seed s) =
         keys A s \<union> ({(i, j, Shell), (i, j, Panes)}
         \<union> (if complexity seed = 1 then {(i, j, TopShell), (i, j, TopPanes)} else {}))"
proof (rule set_eqI)
  fix k :: "nat \<times> nat \<times> part"
  obtain i' j' p where k: "k = (i', j', p)" by (cases k)
  show "k \<in> keys (insert (i, j) A) (place i j seed s) \<longleftrightarrow>
        k \<in> keys A s \<union> ({(i, j, Shell), (i, j, Panes)}
         \<union> (if complexity seed = 1 then {(i, j, TopShell), (i, j, TopPanes)} else {}))"
    using assms unfolding k by (cases p; cases "i' = i \<and> j' = j") (auto simp: keys_def)
qed

lemma handle_place_old:
  assumes "k \<in> keys A s" and "(i, j) \<notin> A"
  shows "handle (place i j seed s) k = handle s k"
proof -
  obtain i' j' p where k: "k = (i', j', p)" by (cases k)
  with assms have "(i', j') \<noteq> (i, j)" by (auto simp: keys_def)
  then show ?thesis
    unfolding k by (cases p) auto
qed

lemma ownsD:
  assumes "owns A E s"
  shows "inj_on (handle s) (keys A s)" and "E \<inter> handle s ` keys A s = {}"
    and "dom (gl_objects s) = E \<union> handle s ` keys A s"
    and "\<And>g. g \<in> dom (gl_objects s) \<Longrightarrow> g < gl_next s"
  using assms unfolding owns_def by simp_all

lemma owns_place:
  assumes O: "owns A E s" and N: "(i, j) \<notin> A"
  shows "owns (insert (i, j) A) E (place i j seed s)"
proof -
  let ?s = "place i j seed s" and ?g = "gl_next s"
  let ?new = "{(i, j, Shell), (i, j, Panes)}
         \<union> (if complexity seed = 1 then {(i, j, TopShell), (i, j, TopPanes)} else {})"
  note K = keys_place [OF N, of seed s]
  have old: "handle ?s k = handle s k" if "k \<in> keys A s" for k
    using that by (rule handle_place_old [OF _ N])
  have oldlt: "g < ?g" if "g \<in> handle s ` keys A s" for g
    using that handle_less [OF O] by auto
  have img: "handle ?s ` ?new = {?g, Suc ?g}
      \<union> (if complexity seed = 1 then {Suc (Suc ?g), Suc (Suc (Suc ?g))} else {})"
    by (cases "complexity seed = 1") simp_all
  have newge: "?g \<le> g" if "g \<in> handle ?s ` ?new" for g
    using that unfolding img by (cases "complexity seed = 1") auto
  have newinj: "inj_on (handle ?s) ?new"
    by (cases "complexity seed = 1") simp_all
  have oldimg: "handle ?s ` keys A s = handle s ` keys A s"
    using old by (rule image_cong [OF refl])
  have "inj_on (handle ?s) (keys A s) = inj_on (handle s) (keys A s)"
    using old by (rule inj_on_cong)
  then have oldinj: "inj_on (handle ?s) (keys A s)"
    using ownsD(1) [OF O] by simp
  have disj: "handle s ` keys A s \<inter> handle ?s ` ?new = {}"
    using oldlt newge by fastforce
  have d2: "handle ?s ` keys A s \<inter> handle ?s ` ?new = {}"
    using disj unfolding oldimg .
  have "handle ?s ` (keys A s - ?new) \<subseteq> handle ?s ` keys A s"
    "handle ?s ` (?new - keys A s) \<subseteq> handle ?s ` ?new"
    by (rule image_mono, rule Diff_subset)+
  with d2 have d3: "handle ?s ` (keys A s - ?new) \<inter> handle ?s ` (?new - keys A s) = {}"
    by (meson disjoint_iff subsetD)
  have 1: "inj_on (handle ?s) (keys (insert (i, j) A) ?s)"
    unfolding K by (rule inj_on_Un [THEN iffD2]) (intro conjI oldinj newinj d3)
  have "E \<inter> handle ?s ` ?new = {}"
    using extra_less [OF O] newge by fastforce
  then have 2: "E \<inter> handle ?s ` keys (insert (i, j) A) ?s = {}"
    unfolding K image_Un oldimg using ownsD(2) [OF O] by blast
  have 3: "dom (gl_objects ?s) = E \<union> handle ?s ` keys (insert (i, j) A) ?s"
    unfolding K image_Un oldimg img dom_place ownsD(3) [OF O] by (simp add: Un_assoc)
  have 4: "g < gl_next ?s" if "g \<in> dom (gl_objects ?s)" for g
  proof -
    from that consider "g \<in> dom (gl_objects s)" | "g \<in> handle ?s ` ?new"
      unfolding dom_place img by blast
    then show ?thesis
    proof cases
      case 1
      from ownsD(4) [OF O this] show ?thesis by simp
    next
      case 2
      then show ?thesis
        unfolding img by (cases "complexity seed = 1") auto
    qed
  qed
  from 1 2 3 4 show ?thesis
    unfolding owns_def by blast
qed

lemma cell_at_place_old:
  assumes O: "owns A E s" and N: "(i, j) \<notin> A" and A: "(i', j') \<in> A"
  shows "cell_at (place i j seed s) i' j' = cell_at s i' j'"
proof -
  from N A have ne: "(i' = i \<and> j' = j) = False" by auto
  have "(i', j', Shell) \<in> keys A s" "(i', j', Panes) \<in> keys A s"
    and "isComplex s i' j' = 1 \<Longrightarrow> (i', j', TopShell) \<in> keys A s"
    and "isComplex s i' j' = 1 \<Longrightarrow> (i', j', TopPanes) \<in> keys A s"
    using A by (simp_all add: keys_def)
  from this [THEN handle_less [OF O]]
  have "building s i' j' < gl_next s" "windows s i' j' < gl_next s"
    "isComplex s i' j' = 1 \<Longrightarrow> buildingTop s i' j' < gl_next s"
    "isComplex s i' j' = 1 \<Longrightarrow> windowsTop s i' j' < gl_next s"
    by simp_all
  then show ?thesis
    by (simp add: cell_at_def objects_place_old ne)
qed

lemma has_cells_place:
  assumes O: "owns A E s" and N: "(i, j) \<notin> A" and C: "has_cells A f s"
    and f: "\<And>i' j'. (i', j') \<in> A \<Longrightarrow> f' i' j' = f i' j'" and seed: "f' i j = seed"
  shows "has_cells (insert (i, j) A) f' (place i j seed s)"
  using C f seed cell_at_place_old [OF O N]
  by (auto simp: has_cells_def cell_at_place)

section \<open>Deleting a row\<close>

lemma fold_upt_induct:
  assumes "P 0 s" and "\<And>n s. n < m \<Longrightarrow> P n s \<Longrightarrow> P (Suc n) (f n s)"
  shows "P m (fold f [0..<m] s)"
  using assms(2)
proof (induction m)
  case 0
  then show ?case using assms(1) by simp
next
  case (Suc m)
  have "P m (fold f [0..<m] s)"
    by (rule Suc.IH) (simp add: Suc.prems)
  then show ?case
    by (simp add: Suc.prems)
qed

lemma for_each_total:
  assumes "\<And>n s. body n s = Some (f n s)"
  shows "for_each xs body s = Some (fold f xs s)"
  by (induction xs arbitrary: s) (simp_all add: assms)

lemma delete_row_fold: "delete_row r s = fold (delete_cell r) [0..<10] s"
proof -
  have "(\<lambda>n s.
       let s = kuhl_geometry_delete (building s n r) s;
           s = kuhl_geometry_delete (windows s n r) s
       in if isComplex s n r = 1
          then let s = kuhl_geometry_delete (buildingTop s n r) s
               in kuhl_geometry_delete (windowsTop s n r) s
          else s) = delete_cell r"
    by (intro ext) (simp add: delete_cell_def)
  then show ?thesis
    by (simp add: delete_row_def)
qed

lemma delete_cell_fields [simp]:
  "building (delete_cell r n s) = building s"
  "windows (delete_cell r n s) = windows s"
  "buildingTop (delete_cell r n s) = buildingTop s"
  "windowsTop (delete_cell r n s) = windowsTop s"
  "isComplex (delete_cell r n s) = isComplex s"
  "gl_next (delete_cell r n s) = gl_next s"
  "rand48 (delete_cell r n s) = rand48 s"
  "shift (delete_cell r n s) = shift s"
  "shiftBreak (delete_cell r n s) = shiftBreak s"
  "roads (delete_cell r n s) = roads s"
  "recycled (delete_cell r n s) = recycled s"
  by (simp_all add: delete_cell_def kuhl_geometry_delete_def Let_def)

lemma keys_single:
  "keys {(n, r)} s = {(n, r, Shell), (n, r, Panes)}
     \<union> (if isComplex s n r = 1 then {(n, r, TopShell), (n, r, TopPanes)} else {})"
proof (rule set_eqI)
  fix k :: "nat \<times> nat \<times> part"
  obtain i' j' p where k: "k = (i', j', p)" by (cases k)
  show "k \<in> keys {(n, r)} s \<longleftrightarrow> k \<in> {(n, r, Shell), (n, r, Panes)}
     \<union> (if isComplex s n r = 1 then {(n, r, TopShell), (n, r, TopPanes)} else {})"
    unfolding k by (cases p) (auto simp: keys_def)
qed

lemma delete_cell_objects:
  "gl_objects (delete_cell r n s) g =
     (if g \<in> handle s ` keys {(n, r)} s then None else gl_objects s g)"
  by (simp add: delete_cell_def kuhl_geometry_delete_def Let_def keys_single)

lemma handle_cong:
  assumes "building s' = building s" "windows s' = windows s"
    "buildingTop s' = buildingTop s" "windowsTop s' = windowsTop s"
  shows "handle s' = handle s"
proof
  fix k :: "nat \<times> nat \<times> part"
  obtain i j p where "k = (i, j, p)" by (cases k)
  then show "handle s' k = handle s k"
    using assms by (cases p) simp_all
qed

lemma keys_cong: "isComplex s' = isComplex s \<Longrightarrow> keys A s' = keys A s"
  by (simp add: keys_def)

lemma keys_Diff: "keys (A - B) s = keys A s - keys B s"
  by (auto simp: keys_def)

lemma keys_mono: "A \<subseteq> B \<Longrightarrow> keys A s \<subseteq> keys B s"
  by (auto simp: keys_def)

lemma owns_delete_cell:
  assumes O: "owns A E s" and A: "(n, r) \<in> A"
  shows "owns (A - {(n, r)}) E (delete_cell r n s)"
proof -
  let ?s = "delete_cell r n s"
  let ?D = "keys {(n, r)} s"
  have h: "handle ?s = handle s"
    by (rule handle_cong) simp_all
  have "keys (A - {(n, r)}) ?s = keys (A - {(n, r)}) s"
    by (rule keys_cong) simp
  then have K: "keys (A - {(n, r)}) ?s = keys A s - ?D"
    by (simp only: keys_Diff)
  have sub: "?D \<subseteq> keys A s"
    using A by (intro keys_mono) simp
  note inj = ownsD(1) [OF O]
  have img: "handle s ` (keys A s - ?D) = handle s ` keys A s - handle s ` ?D"
    using inj sub by (rule inj_on_image_set_diff [OF _ Diff_subset])
  have 1: "inj_on (handle ?s) (keys (A - {(n, r)}) ?s)"
    unfolding h K using inj by (rule inj_on_subset) simp
  have 2: "E \<inter> handle ?s ` keys (A - {(n, r)}) ?s = {}"
    unfolding h K img using ownsD(2) [OF O] by blast
  have "dom (gl_objects ?s) = dom (gl_objects s) - handle s ` ?D"
    by (auto simp: delete_cell_objects dom_def)
  also have "\<dots> = E \<union> (handle s ` keys A s - handle s ` ?D)"
    unfolding ownsD(3) [OF O] using ownsD(2) [OF O] sub by blast
  finally have 3: "dom (gl_objects ?s) = E \<union> handle ?s ` keys (A - {(n, r)}) ?s"
    unfolding h K img .
  have 4: "g < gl_next ?s" if "g \<in> dom (gl_objects ?s)" for g
  proof -
    from that have "g \<in> dom (gl_objects s)"
      by (auto simp: delete_cell_objects dom_def split: if_splits)
    from ownsD(4) [OF O this] show ?thesis by simp
  qed
  from 1 2 3 4 show ?thesis
    unfolding owns_def by blast
qed

lemma live_cell:
  assumes O: "owns A E s" and A: "(i, j) \<in> A" and dis: "handle s ` keys {(i, j)} s \<inter> G = {}"
    and same: "\<And>g. g \<notin> G \<Longrightarrow> gl_objects s' g = gl_objects s g"
    and arrays: "building s' i j = building s i j" "windows s' i j = windows s i j"
      "buildingTop s' i j = buildingTop s i j" "windowsTop s' i j = windowsTop s i j"
      "isComplex s' i j = isComplex s i j"
  shows "cell_at s' i j = cell_at s i j"
proof -
  have "building s i j \<notin> G" "windows s i j \<notin> G"
    "isComplex s i j = 1 \<Longrightarrow> buildingTop s i j \<notin> G"
    "isComplex s i j = 1 \<Longrightarrow> windowsTop s i j \<notin> G"
    using dis by (auto simp: keys_single)
  then show ?thesis
    by (simp add: cell_at_def arrays same)
qed

lemma cell_at_delete_cell:
  assumes O: "owns A E s" and A: "(n, r) \<in> A" and B: "(i, j) \<in> A" "(i, j) \<noteq> (n, r)"
  shows "cell_at (delete_cell r n s) i j = cell_at s i j"
proof (rule live_cell [OF O B(1), where G = "handle s ` keys {(n, r)} s"])
  have sub: "keys {(i, j)} s \<subseteq> keys A s" "keys {(n, r)} s \<subseteq> keys A s"
    using A B by (simp_all add: keys_mono)
  have "keys {(i, j)} s \<inter> keys {(n, r)} s = {}"
    using B(2) by (auto simp: keys_def)
  with inj_on_image_Int [OF ownsD(1) [OF O] sub]
  show "handle s ` keys {(i, j)} s \<inter> handle s ` keys {(n, r)} s = {}"
    by simp
qed (simp_all add: delete_cell_objects)

lemma unmoved_refl [simp]: "unmoved s s"
  by (simp add: unmoved_def)

lemma unmoved_trans: "unmoved s t \<Longrightarrow> unmoved t u \<Longrightarrow> unmoved s u"
  by (simp add: unmoved_def)

lemma has_cellsI:
  "(\<And>i j. (i, j) \<in> A \<Longrightarrow> cell_at s i j = generated (f i j)) \<Longrightarrow> has_cells A f s"
  by (auto simp: has_cells_def)

lemma has_cellsD: "has_cells A f s \<Longrightarrow> (i, j) \<in> A \<Longrightarrow> cell_at s i j = generated (f i j)"
  by (auto simp: has_cells_def)

lemma delete_row_inv:
  assumes O: "owns grid E s" and C: "has_cells grid f s" and r: "r < 10"
  shows "owns (grid - row r) E (delete_row r s) \<and>
         has_cells (grid - row r) f (delete_row r s) \<and>
         (\<forall>i j. slot (delete_row r s) i j = slot s i j) \<and>
         unmoved s (delete_row r s) \<and>
         gl_next (delete_row r s) = gl_next s \<and>
         rand48 (delete_row r s) = rand48 s \<and>
         dom (gl_objects (delete_row r s)) = dom (gl_objects s) - handle s ` keys (grid \<inter> row r) s"
proof -
  define P where "P = (\<lambda>n t.
         owns (grid - {..<n} \<times> {r}) E t \<and>
         has_cells (grid - {..<n} \<times> {r}) f t \<and>
         (\<forall>i j. slot t i j = slot s i j) \<and>
         unmoved s t \<and> gl_next t = gl_next s \<and> rand48 t = rand48 s \<and>
         dom (gl_objects t) = dom (gl_objects s) - handle s ` keys (grid \<inter> {..<n} \<times> {r}) s)"
  have "P 10 (fold (delete_cell r) [0..<10] s)"
  proof (rule fold_upt_induct [where P = P])
    have "keys {} s = {}" by (simp add: keys_def)
    then show "P 0 s"
      using O C by (simp add: P_def)
  next
    fix n t
    assume n: "n < (10::nat)" and P: "P n t"
    let ?A = "grid - {..<n} \<times> {r}"
    let ?t = "delete_cell r n t"
    from P have Ot: "owns ?A E t" and Ct: "has_cells ?A f t"
      and sl: "\<And>i j. slot t i j = slot s i j" and un: "unmoved s t"
      and nx: "gl_next t = gl_next s" and rn: "rand48 t = rand48 s"
      and dm: "dom (gl_objects t) = dom (gl_objects s) - handle s ` keys (grid \<inter> {..<n} \<times> {r}) s"
      by (simp_all add: P_def)
    have A': "?A - {(n, r)} = grid - {..<Suc n} \<times> {r}"
      by (auto simp: lessThan_Suc)
    have hs: "handle t = handle s"
      using sl by (intro handle_cong ext) (simp_all add: slot_def)
    have cs: "isComplex t = isComplex s"
      using sl by (intro ext) (simp add: slot_def)
    from n r have in_A: "(n, r) \<in> ?A"
      by (simp add: grid_def)
    have 1: "owns (grid - {..<Suc n} \<times> {r}) E ?t"
      using owns_delete_cell [OF Ot in_A] unfolding A' .
    have 2: "has_cells (grid - {..<Suc n} \<times> {r}) f ?t"
    proof (rule has_cellsI)
      fix i j assume ij: "(i, j) \<in> grid - {..<Suc n} \<times> {r}"
      then have *: "(i, j) \<in> ?A" "(i, j) \<noteq> (n, r)"
        by (auto simp: lessThan_Suc)
      from cell_at_delete_cell [OF Ot in_A *] has_cellsD [OF Ct *(1)]
      show "cell_at ?t i j = generated (f i j)"
        by simp
    qed
    have "keys (grid \<inter> {..<Suc n} \<times> {r}) s = keys (grid \<inter> {..<n} \<times> {r}) s \<union> keys {(n, r)} s"
      using r n by (auto simp: keys_def grid_def lessThan_Suc)
    moreover have "dom (gl_objects ?t) = dom (gl_objects t) - handle t ` keys {(n, r)} t"
      by (auto simp: delete_cell_objects dom_def)
    ultimately have 3: "dom (gl_objects ?t) =
        dom (gl_objects s) - handle s ` keys (grid \<inter> {..<Suc n} \<times> {r}) s"
      unfolding dm hs keys_cong [OF cs] by blast
    show "P (Suc n) ?t"
      using 1 2 3 sl un nx rn by (simp add: P_def slot_def unmoved_def)
  qed
  moreover have "grid - {..<10} \<times> {r} = grid - row r" "grid \<inter> {..<10} \<times> {r} = grid \<inter> row r"
    by (auto simp: row_def)
  ultimately show ?thesis
    by (simp add: P_def delete_row_fold)
qed

lemma move_cell_slot:
  "slot (move_cell i j k s) i' j' = (if i' = i \<and> j' = j then slot s i k else slot s i' j')"
  by (simp add: move_cell_def slot_def Let_def)

lemma move_cell_env [simp]: "env (move_cell i j k s) = env s"
  by (simp add: move_cell_def env_def Let_def)

lemma move_column_back:
  shows "slot (fold (\<lambda>j. move_cell i j (Suc j)) [0..<m] s) i' j' =
     (if i' = i \<and> j' < m then slot s i (Suc j') else slot s i' j')"
    and "env (fold (\<lambda>j. move_cell i j (Suc j)) [0..<m] s) = env s"
proof -
  define P where "P = (\<lambda>n t. (\<forall>i' j'. slot t i' j' =
     (if i' = i \<and> j' < n then slot s i (Suc j') else slot s i' j')) \<and> env t = env s)"
  have "P m (fold (\<lambda>j. move_cell i j (Suc j)) [0..<m] s)"
  proof (rule fold_upt_induct [where P = P])
    show "P 0 s" by (simp add: P_def)
  next
    fix n t assume "n < m" and "P n t"
    then show "P (Suc n) (move_cell i n (Suc n) t)"
      by (auto simp: P_def move_cell_slot less_Suc_eq)
  qed
  then show "slot (fold (\<lambda>j. move_cell i j (Suc j)) [0..<m] s) i' j' =
     (if i' = i \<and> j' < m then slot s i (Suc j') else slot s i' j')"
    and "env (fold (\<lambda>j. move_cell i j (Suc j)) [0..<m] s) = env s"
    by (simp_all add: P_def)
qed

lemma move_rows_back_slot:
  shows "slot (move_rows_back s) i j = (if i < 10 \<and> j < 9 then slot s i (Suc j) else slot s i j)"
    and "env (move_rows_back s) = env s"
proof -
  define g where "g = (\<lambda>i. fold (\<lambda>j. move_cell i j (Suc j)) [0..<9])"
  define P where "P = (\<lambda>n t. (\<forall>i j. slot t i j =
     (if i < n \<and> j < 9 then slot s i (Suc j) else slot s i j)) \<and> env t = env s)"
  have "P 10 (fold g [0..<10] s)"
  proof (rule fold_upt_induct [where P = P])
    show "P 0 s" by (simp add: P_def)
  next
    fix n t assume "n < (10::nat)" and "P n t"
    then show "P (Suc n) (g n t)"
      unfolding g_def by (auto simp: P_def move_column_back less_Suc_eq)
  qed
  then show "slot (move_rows_back s) i j = (if i < 10 \<and> j < 9 then slot s i (Suc j) else slot s i j)"
    and "env (move_rows_back s) = env s"
    by (simp_all add: P_def move_rows_back_def g_def)
qed

lemma move_column_forward:
  shows "slot (fold (\<lambda>j. move_cell i j (j - Suc 0)) (rev [Suc 0..<m]) s) i' j' =
     (if i' = i \<and> Suc 0 \<le> j' \<and> j' < m then slot s i (j' - Suc 0) else slot s i' j')"
    and "env (fold (\<lambda>j. move_cell i j (j - Suc 0)) (rev [Suc 0..<m]) s) = env s"
proof (induction m arbitrary: s i' j')
  case 0
  {
    case 1 show ?case by simp
  next
    case 2 show ?case by simp
  }
next
  case (Suc m)
  {
    case 1
    show ?case
    proof (cases "Suc 0 \<le> m")
      case True
      then show ?thesis
        by (auto simp: Suc.IH move_cell_slot less_Suc_eq)
    next
      case False
      then show ?thesis by auto
    qed
  next
    case 2
    show ?case
      by (cases "Suc 0 \<le> m") (simp_all add: Suc.IH)
  }
qed

lemma move_rows_forward_aux:
  shows "slot (fold (\<lambda>i. fold (\<lambda>j. move_cell i j (j - Suc 0)) (rev [Suc 0..<10])) (rev [0..<m]) s) i j =
     (if i < m \<and> Suc 0 \<le> j \<and> j < 10 then slot s i (j - Suc 0) else slot s i j)"
    and "env (fold (\<lambda>i. fold (\<lambda>j. move_cell i j (j - Suc 0)) (rev [Suc 0..<10])) (rev [0..<m]) s) = env s"
proof (induction m arbitrary: s i j)
  case 0
  {
    case 1 show ?case by simp
  next
    case 2 show ?case by simp
  }
next
  case (Suc m)
  {
    case 1
    show ?case
      by (auto simp: Suc.IH move_column_forward less_Suc_eq)
  next
    case 2
    show ?case
      by (simp add: Suc.IH move_column_forward)
  }
qed

lemma move_rows_forward_slot:
  shows "slot (move_rows_forward s) i j =
     (if i < 10 \<and> Suc 0 \<le> j \<and> j < 10 then slot s i (j - Suc 0) else slot s i j)"
    and "env (move_rows_forward s) = env s"
  by (simp_all add: move_rows_forward_def move_rows_forward_aux)

lemma slot_eqD:
  assumes "slot s' i j = slot s i' j'"
  shows "handle s' (i, j, p) = handle s (i', j', p)" and "isComplex s' i j = isComplex s i' j'"
  using assms by (cases p; simp add: slot_def)+

lemma envD:
  assumes "env s' = env s"
  shows "gl_objects s' = gl_objects s" "gl_next s' = gl_next s" "rand48 s' = rand48 s"
    "unmoved s s'"
  using assms by (simp_all add: env_def unmoved_def)

lemma cell_at_slot:
  assumes "slot s' i j = slot s i' j'" and "gl_objects s' = gl_objects s"
  shows "cell_at s' i j = cell_at s i' j'"
  using assms by (simp add: cell_at_def slot_def)

lemma owns_transfer:
  assumes O: "owns A E s" and bij: "bij_betw \<phi> (keys B s') (keys A s)"
    and h: "\<And>k. k \<in> keys B s' \<Longrightarrow> handle s' k = handle s (\<phi> k)"
    and objs: "gl_objects s' = gl_objects s" and nxt: "gl_next s' = gl_next s"
  shows "owns B E s'"
proof -
  have surj: "\<phi> ` keys B s' = keys A s"
    using bij by (rule bij_betw_imp_surj_on)
  have "handle s' ` keys B s' = (\<lambda>k. handle s (\<phi> k)) ` keys B s'"
    using h by (rule image_cong [OF refl])
  also have "\<dots> = handle s ` (\<phi> ` keys B s')"
    by (simp add: image_image)
  finally have img: "handle s' ` keys B s' = handle s ` keys A s"
    unfolding surj .
  have "inj_on (handle s \<circ> \<phi>) (keys B s')"
    using bij_betw_imp_inj_on [OF bij] ownsD(1) [OF O] unfolding surj [symmetric]
    by (rule comp_inj_on)
  moreover have "inj_on (handle s') (keys B s') = inj_on (handle s \<circ> \<phi>) (keys B s')"
    using h by (intro inj_on_cong) simp
  ultimately have 1: "inj_on (handle s') (keys B s')"
    by simp
  show ?thesis
    unfolding owns_def img objs nxt using 1 ownsD(2-4) [OF O] by blast
qed

lemma move_rows_back_inv:
  assumes O: "owns (grid - row 0) E s" and C: "has_cells (grid - row 0) f s"
  shows "owns (grid - row 9) E (move_rows_back s)"
    and "has_cells (grid - row 9) (\<lambda>i j. f i (Suc j)) (move_rows_back s)"
proof -
  let ?s = "move_rows_back s"
  note env = envD [OF move_rows_back_slot(2) [of s]]
  have sl: "slot ?s i j = slot s i (Suc j)" if "(i, j) \<in> grid - row 9" for i j
    using that by (auto simp: move_rows_back_slot grid_def row_def)
  have shiftA: "(i, Suc j) \<in> grid - row 0" if "(i, j) \<in> grid - row 9" for i j
    using that by (auto simp: grid_def row_def)
  have shiftB: "(i, j - 1) \<in> grid - row 9 \<and> Suc (j - 1) = j" if "(i, j) \<in> grid - row 0" for i j
    using that by (auto simp: grid_def row_def)
  define \<phi> :: "nat \<times> nat \<times> part \<Rightarrow> nat \<times> nat \<times> part" where "\<phi> = (\<lambda>(i, j, p). (i, Suc j, p))"
  define \<psi> :: "nat \<times> nat \<times> part \<Rightarrow> nat \<times> nat \<times> part" where "\<psi> = (\<lambda>(i, j, p). (i, j - 1, p))"
  have fwd: "\<phi> k \<in> keys (grid - row 0) s \<and> \<psi> (\<phi> k) = k" if "k \<in> keys (grid - row 9) ?s" for k
  proof -
    obtain i j p where k: "k = (i, j, p)" by (cases k)
    with that have ij: "(i, j) \<in> grid - row 9" by (simp add: keys_def)
    from that slot_eqD(2) [OF sl [OF ij]] shiftA [OF ij] show ?thesis
      by (auto simp: k keys_def \<phi>_def \<psi>_def)
  qed
  have bwd: "\<psi> k \<in> keys (grid - row 9) ?s \<and> \<phi> (\<psi> k) = k" if "k \<in> keys (grid - row 0) s" for k
  proof -
    obtain i j p where k: "k = (i, j, p)" by (cases k)
    with that have ij: "(i, j) \<in> grid - row 0" by (simp add: keys_def)
    from shiftB [OF ij] have ij': "(i, j - 1) \<in> grid - row 9" and S: "Suc (j - 1) = j"
      by simp_all
    from that slot_eqD(2) [OF sl [OF ij']] ij' S show ?thesis
      by (auto simp: k keys_def \<phi>_def \<psi>_def)
  qed
  have bij: "bij_betw \<phi> (keys (grid - row 9) ?s) (keys (grid - row 0) s)"
    by (rule bij_betw_byWitness [where f' = \<psi>]) (use fwd bwd in auto)
  have h: "handle ?s k = handle s (\<phi> k)" if "k \<in> keys (grid - row 9) ?s" for k
  proof -
    obtain i j p where k: "k = (i, j, p)" by (cases k)
    with that have ij: "(i, j) \<in> grid - row 9" by (simp add: keys_def)
    from slot_eqD(1) [OF sl [OF ij]] show ?thesis
      by (simp add: k \<phi>_def)
  qed
  show "owns (grid - row 9) E ?s"
    using O bij h env(1,2) by (rule owns_transfer)
  show "has_cells (grid - row 9) (\<lambda>i j. f i (Suc j)) ?s"
  proof (rule has_cellsI)
    fix i j assume ij: "(i, j) \<in> grid - row 9"
    from cell_at_slot [OF sl [OF ij] env(1)] has_cellsD [OF C shiftA [OF ij]]
    show "cell_at ?s i j = generated (f i (Suc j))"
      by simp
  qed
qed

lemma move_rows_forward_inv:
  assumes O: "owns (grid - row 9) E s" and C: "has_cells (grid - row 9) f s"
  shows "owns (grid - row 0) E (move_rows_forward s)"
    and "has_cells (grid - row 0) (\<lambda>i j. f i (j - 1)) (move_rows_forward s)"
proof -
  let ?s = "move_rows_forward s"
  note env = envD [OF move_rows_forward_slot(2) [of s]]
  have sl: "slot ?s i j = slot s i (j - 1)" if "(i, j) \<in> grid - row 0" for i j
    using that by (auto simp: move_rows_forward_slot grid_def row_def)
  have shiftA: "(i, j - 1) \<in> grid - row 9" if "(i, j) \<in> grid - row 0" for i j
    using that by (auto simp: grid_def row_def)
  have unstep: "Suc (j - 1) = j" if "(i, j) \<in> grid - row 0" for i j
    using that by (auto simp: grid_def row_def)
  have shiftB: "(i, Suc j) \<in> grid - row 0" if "(i, j) \<in> grid - row 9" for i j
    using that by (auto simp: grid_def row_def)
  define \<phi> :: "nat \<times> nat \<times> part \<Rightarrow> nat \<times> nat \<times> part" where "\<phi> = (\<lambda>(i, j, p). (i, j - 1, p))"
  define \<psi> :: "nat \<times> nat \<times> part \<Rightarrow> nat \<times> nat \<times> part" where "\<psi> = (\<lambda>(i, j, p). (i, Suc j, p))"
  have fwd: "\<phi> k \<in> keys (grid - row 9) s \<and> \<psi> (\<phi> k) = k" if "k \<in> keys (grid - row 0) ?s" for k
  proof -
    obtain i j p where k: "k = (i, j, p)" by (cases k)
    with that have ij: "(i, j) \<in> grid - row 0" by (simp add: keys_def)
    from that slot_eqD(2) [OF sl [OF ij]] shiftA [OF ij] unstep [OF ij] show ?thesis
      by (auto simp: k keys_def \<phi>_def \<psi>_def)
  qed
  have bwd: "\<psi> k \<in> keys (grid - row 0) ?s \<and> \<phi> (\<psi> k) = k" if "k \<in> keys (grid - row 9) s" for k
  proof -
    obtain i j p where k: "k = (i, j, p)" by (cases k)
    with that have ij: "(i, j) \<in> grid - row 9" by (simp add: keys_def)
    from shiftB [OF ij] have ij': "(i, Suc j) \<in> grid - row 0" .
    from that slot_eqD(2) [OF sl [OF ij']] ij' show ?thesis
      by (auto simp: k keys_def \<phi>_def \<psi>_def)
  qed
  have bij: "bij_betw \<phi> (keys (grid - row 0) ?s) (keys (grid - row 9) s)"
    by (rule bij_betw_byWitness [where f' = \<psi>]) (use fwd bwd in auto)
  have h: "handle ?s k = handle s (\<phi> k)" if "k \<in> keys (grid - row 0) ?s" for k
  proof -
    obtain i j p where k: "k = (i, j, p)" by (cases k)
    with that have ij: "(i, j) \<in> grid - row 0" by (simp add: keys_def)
    from slot_eqD(1) [OF sl [OF ij]] show ?thesis
      by (simp add: k \<phi>_def)
  qed
  show "owns (grid - row 0) E ?s"
    using O bij h env(1,2) by (rule owns_transfer)
  show "has_cells (grid - row 0) (\<lambda>i j. f i (j - 1)) ?s"
  proof (rule has_cellsI)
    fix i j assume ij: "(i, j) \<in> grid - row 0"
    from cell_at_slot [OF sl [OF ij] env(1)] has_cellsD [OF C shiftA [OF ij]]
    show "cell_at ?s i j = generated (f i (j - 1))"
      by simp
  qed
qed

lemma slot_cong:
  assumes "\<And>i j. slot s' i j = slot s i j"
  shows "handle s' = handle s" and "isComplex s' = isComplex s" and "keys A s' = keys A s"
proof -
  show 1: "handle s' = handle s"
    using assms by (intro handle_cong ext) (simp_all add: slot_def)
  show 2: "isComplex s' = isComplex s"
    using assms by (intro ext) (simp add: slot_def)
  show "keys A s' = keys A s"
    using 2 by (rule keys_cong)
qed

lemma owns_cong:
  assumes "\<And>i j. slot s' i j = slot s i j" and "gl_objects s' = gl_objects s"
    and "gl_next s' = gl_next s"
  shows "owns A E s' = owns A E s"
  unfolding owns_def slot_cong [OF assms(1)] assms(2,3) ..

lemma has_cells_cong:
  assumes "\<And>i j. slot s' i j = slot s i j" and "gl_objects s' = gl_objects s"
  shows "has_cells A f s' = has_cells A f s"
proof -
  have "cell_at s' i j = cell_at s i j" for i j
    using assms by (rule cell_at_slot)
  then show ?thesis
    by (simp add: has_cells_def)
qed

lemma place_slot_other: "j \<noteq> r \<Longrightarrow> slot (place n r seed s) i j = slot s i j"
  by (simp add: slot_def)

lemma add_row_inv:
  fixes dep :: "int \<Rightarrow> int"
  assumes O: "owns (grid - row r) E s" and C: "has_cells (grid - row r) f s" and r: "r < 10"
  defines "f' \<equiv> \<lambda>i j. if j = r then getSeed (int i) (dep (shiftBreak s)) else f i j"
  defines "s' \<equiv> fold (\<lambda>n s. place n r (getSeed (int n) (dep (shiftBreak s))) s) [0..<10] s"
  shows "owns grid E s'" and "has_cells grid f' s'" and "unmoved s s'"
    and "\<And>g. g < gl_next s \<Longrightarrow> gl_objects s' g = gl_objects s g"
    and "\<And>i j. j \<noteq> r \<Longrightarrow> slot s' i j = slot s i j"
proof -
  define P where "P = (\<lambda>n t.
      owns (grid - row r \<union> {..<n} \<times> {r}) E t \<and>
      has_cells (grid - row r \<union> {..<n} \<times> {r}) f' t \<and>
      unmoved s t \<and> gl_next s \<le> gl_next t \<and>
      (\<forall>g < gl_next s. gl_objects t g = gl_objects s g) \<and>
      (\<forall>i j. j \<noteq> r \<longrightarrow> slot t i j = slot s i j))"
  have "P 10 s'"
    unfolding s'_def
  proof (rule fold_upt_induct [where P = P])
    have "has_cells (grid - row r) f' s"
      using C by (auto simp: has_cells_def f'_def row_def grid_def)
    then show "P 0 s"
      using O by (simp add: P_def)
  next
    fix n t assume n: "n < (10::nat)" and P: "P n t"
    let ?A = "grid - row r \<union> {..<n} \<times> {r}"
    let ?seed = "getSeed (int n) (dep (shiftBreak t))"
    from P have Ot: "owns ?A E t" and Ct: "has_cells ?A f' t" and un: "unmoved s t"
      and nx: "gl_next s \<le> gl_next t"
      and ob: "\<And>g. g < gl_next s \<Longrightarrow> gl_objects t g = gl_objects s g"
      and sl: "\<And>i j. j \<noteq> r \<Longrightarrow> slot t i j = slot s i j"
      by (simp_all add: P_def)
    have N: "(n, r) \<notin> ?A"
      using n by (simp add: row_def)
    have A': "insert (n, r) ?A = grid - row r \<union> {..<Suc n} \<times> {r}"
      by (auto simp: lessThan_Suc)
    have seed: "f' n r = ?seed"
      using un by (simp add: f'_def unmoved_def)
    have 1: "owns (grid - row r \<union> {..<Suc n} \<times> {r}) E (place n r ?seed t)"
      using owns_place [OF Ot N] unfolding A' .
    have 2: "has_cells (grid - row r \<union> {..<Suc n} \<times> {r}) f' (place n r ?seed t)"
      using has_cells_place [OF Ot N Ct refl seed] unfolding A' .
    have 3: "gl_objects (place n r ?seed t) g = gl_objects s g" if "g < gl_next s" for g
      using that nx ob by (simp add: objects_place_old)
    show "P (Suc n) (place n r ?seed t)"
      using 1 2 3 un nx sl by (simp add: P_def unmoved_def place_slot_other)
  qed
  moreover have "grid - row r \<union> {..<10} \<times> {r} = grid"
    using r by (auto simp: grid_def row_def)
  ultimately show "owns grid E s'" and "has_cells grid f' s'" and "unmoved s s'"
    and "\<And>g. g < gl_next s \<Longrightarrow> gl_objects s' g = gl_objects s g"
    and "\<And>i j. j \<noteq> r \<Longrightarrow> slot s' i j = slot s i j"
    by (simp_all add: P_def)
qed

section \<open>The recycling functions\<close>

lemma add_row_Some:
  "for_each xs (\<lambda>n s. new_building n r (sd n s) s) s
   = Some (fold (\<lambda>n s. place n r (sd n s) s) xs s)"
  by (rule for_each_total) (simp add: new_building_place)

lemma addRowFar_effect:
  assumes O: "owns grid E s" and C: "has_cells grid f s"
  shows "\<exists>s'. addRowFar s = Some s' \<and> owns grid E s' \<and>
           has_cells grid (\<lambda>i j. if j = 9 then getSeed (int i) (9 - shiftBreak s) else f i (Suc j)) s' \<and>
           shift s' = shift s \<and> shiftBreak s' = shiftBreak s \<and> roads s' = roads s \<and>
           recycled s' = recycled s @ [RowFar (shiftBreak s)] \<and>
           (\<forall>k \<in> keys (row 0) s. handle s k \<notin> dom (gl_objects s')) \<and>
           (\<forall>i j. j \<noteq> 9 \<longrightarrow> slot s' i j = (if i < 10 \<and> j < 9 then slot s i (Suc j) else slot s i j))"
proof -
  define s1 where "s1 = s\<lparr>recycled := recycled s @ [RowFar (shiftBreak s)]\<rparr>"
  define s2 where "s2 = delete_row 0 s1"
  define s3 where "s3 = move_rows_back s2"
  define s4 where "s4 = fold (\<lambda>n s. place n 9 (getSeed (int n) (9 - shiftBreak s)) s) [0..<10] s3"
  have run: "addRowFar s = Some s4"
    by (simp add: addRowFar_def add_row_Some s1_def s2_def s3_def s4_def Let_def)
  have sl1: "slot s1 i j = slot s i j" for i j
    by (simp add: s1_def slot_def)
  have O1: "owns grid E s1"
    using O by (subst owns_cong [of s1 s]) (simp_all add: sl1, simp_all add: s1_def)
  have C1: "has_cells grid f s1"
    using C by (subst has_cells_cong [of s1 s]) (simp_all add: sl1, simp_all add: s1_def)
  note d = delete_row_inv [OF O1 C1, of 0, folded s2_def]
  from d have O2: "owns (grid - row 0) E s2" and C2: "has_cells (grid - row 0) f s2"
    and sl2: "\<And>i j. slot s2 i j = slot s1 i j" and un2: "unmoved s1 s2"
    and nx2: "gl_next s2 = gl_next s1"
    and dm2: "dom (gl_objects s2) = dom (gl_objects s1) - handle s1 ` keys (grid \<inter> row 0) s1"
    by simp_all
  note m = move_rows_back_inv [OF O2 C2, folded s3_def]
  note e3 = envD [OF move_rows_back_slot(2) [of s2], folded s3_def]
  note a = add_row_inv [OF m(1) m(2), where dep = "\<lambda>b. 9 - b", folded s4_def]
  have sb: "shiftBreak s3 = shiftBreak s" "shift s3 = shift s" "roads s3 = roads s"
    "recycled s3 = recycled s @ [RowFar (shiftBreak s)]"
    using un2 e3(4) by (simp_all add: unmoved_def s1_def)
  have 1: "owns grid E s4"
    using a(1) by simp
  have "has_cells grid (\<lambda>i j. if j = 9 then getSeed (int i) (9 - shiftBreak s3) else f i (Suc j)) s4"
    using a(2) by simp
  then have 2: "has_cells grid (\<lambda>i j. if j = 9 then getSeed (int i) (9 - shiftBreak s) else f i (Suc j)) s4"
    by (simp only: sb)
  have 3: "shift s4 = shift s" "shiftBreak s4 = shiftBreak s" "roads s4 = roads s"
    "recycled s4 = recycled s @ [RowFar (shiftBreak s)]"
    using a(3) sb by (simp_all add: unmoved_def)
  have 4: "handle s k \<notin> dom (gl_objects s4)" if "k \<in> keys (row 0) s" for k
  proof -
    have hk: "handle s1 = handle s" "\<And>A. keys A s1 = keys A s"
      using slot_cong [of s1 s] sl1 by simp_all
    have "grid \<inter> row 0 = row 0"
      by (auto simp: grid_def row_def)
    with that have "handle s k \<in> handle s1 ` keys (grid \<inter> row 0) s1"
      by (simp add: hk)
    then have "gl_objects s2 (handle s k) = None"
      using dm2 by blast
    moreover have "row 0 \<subseteq> grid"
      by (auto simp: grid_def row_def)
    from keys_mono [OF this, of s] that have "k \<in> keys grid s1"
      unfolding hk by blast
    then have "handle s k < gl_next s3"
      using handle_less [OF O1] by (simp add: hk e3 nx2)
    ultimately show ?thesis
      using a(4) [of "handle s k"] by (simp add: e3 dom_def)
  qed
  have 5: "slot s4 i j = (if i < 10 \<and> j < 9 then slot s i (Suc j) else slot s i j)" if "j \<noteq> 9" for i j
    using that a(5) [of j i] by (simp add: s3_def move_rows_back_slot sl2 sl1)
  show ?thesis
    using run 1 2 3 4 5 by blast
qed

lemma addRowNear_effect:
  assumes O: "owns grid E s" and C: "has_cells grid f s"
  shows "\<exists>s'. addRowNear s = Some s' \<and> owns grid E s' \<and>
           has_cells grid (\<lambda>i j. if j = 0 then getSeed (int i) (- shiftBreak s) else f i (j - 1)) s' \<and>
           shift s' = shift s \<and> shiftBreak s' = shiftBreak s \<and> roads s' = roads s \<and>
           recycled s' = recycled s @ [RowNear (shiftBreak s)] \<and>
           (\<forall>k \<in> keys (row 9) s. handle s k \<notin> dom (gl_objects s')) \<and>
           (\<forall>i j. j \<noteq> 0 \<longrightarrow> slot s' i j = (if i < 10 \<and> j < 10 then slot s i (j - 1) else slot s i j))"
proof -
  define s1 where "s1 = s\<lparr>recycled := recycled s @ [RowNear (shiftBreak s)]\<rparr>"
  define s2 where "s2 = delete_row 9 s1"
  define s3 where "s3 = move_rows_forward s2"
  define s4 where "s4 = fold (\<lambda>n s. place n 0 (getSeed (int n) (- shiftBreak s)) s) [0..<10] s3"
  have run: "addRowNear s = Some s4"
    by (simp add: addRowNear_def add_row_Some s1_def s2_def s3_def s4_def Let_def)
  have sl1: "slot s1 i j = slot s i j" for i j
    by (simp add: s1_def slot_def)
  have O1: "owns grid E s1"
    using O by (subst owns_cong [of s1 s]) (simp_all add: sl1, simp_all add: s1_def)
  have C1: "has_cells grid f s1"
    using C by (subst has_cells_cong [of s1 s]) (simp_all add: sl1, simp_all add: s1_def)
  note d = delete_row_inv [OF O1 C1, of 9, folded s2_def]
  from d have O2: "owns (grid - row 9) E s2" and C2: "has_cells (grid - row 9) f s2"
    and sl2: "\<And>i j. slot s2 i j = slot s1 i j" and un2: "unmoved s1 s2"
    and nx2: "gl_next s2 = gl_next s1"
    and dm2: "dom (gl_objects s2) = dom (gl_objects s1) - handle s1 ` keys (grid \<inter> row 9) s1"
    by simp_all
  note m = move_rows_forward_inv [OF O2 C2, folded s3_def]
  note e3 = envD [OF move_rows_forward_slot(2) [of s2], folded s3_def]
  note a = add_row_inv [OF m(1) m(2), where dep = "\<lambda>b. - b", folded s4_def]
  have sb: "shiftBreak s3 = shiftBreak s" "shift s3 = shift s" "roads s3 = roads s"
    "recycled s3 = recycled s @ [RowNear (shiftBreak s)]"
    using un2 e3(4) by (simp_all add: unmoved_def s1_def)
  have 1: "owns grid E s4"
    using a(1) by simp
  have "has_cells grid (\<lambda>i j. if j = 0 then getSeed (int i) (- shiftBreak s3) else f i (j - 1)) s4"
    using a(2) by simp
  then have 2: "has_cells grid (\<lambda>i j. if j = 0 then getSeed (int i) (- shiftBreak s) else f i (j - 1)) s4"
    by (simp only: sb)
  have 3: "shift s4 = shift s" "shiftBreak s4 = shiftBreak s" "roads s4 = roads s"
    "recycled s4 = recycled s @ [RowNear (shiftBreak s)]"
    using a(3) sb by (simp_all add: unmoved_def)
  have 4: "handle s k \<notin> dom (gl_objects s4)" if "k \<in> keys (row 9) s" for k
  proof -
    have hk: "handle s1 = handle s" "\<And>A. keys A s1 = keys A s"
      using slot_cong [of s1 s] sl1 by simp_all
    have "grid \<inter> row 9 = row 9"
      by (auto simp: grid_def row_def)
    with that have "handle s k \<in> handle s1 ` keys (grid \<inter> row 9) s1"
      by (simp add: hk)
    then have "gl_objects s2 (handle s k) = None"
      using dm2 by blast
    moreover have "row 9 \<subseteq> grid"
      by (auto simp: grid_def row_def)
    from keys_mono [OF this, of s] that have "k \<in> keys grid s1"
      unfolding hk by blast
    then have "handle s k < gl_next s3"
      using handle_less [OF O1] by (simp add: hk e3 nx2)
    ultimately show ?thesis
      using a(4) [of "handle s k"] by (simp add: e3 dom_def)
  qed
  have 5: "slot s4 i j = (if i < 10 \<and> j < 10 then slot s i (j - 1) else slot s i j)" if "j \<noteq> 0" for i j
    using that a(5) [of j i] by (simp add: s3_def move_rows_forward_slot sl2 sl1)
  show ?thesis
    using run 1 2 3 4 5 by blast
qed

section \<open>Startup and frames\<close>

lemma owns_statics: "owns {} {} (statics X g)"
proof -
  have "keys {} s = {}" for s
    by (simp add: keys_def)
  then show ?thesis
    by (simp add: owns_def statics_def)
qed

lemma init_buildings_effect:
  "\<exists>s. init_buildings (statics X g) = Some s \<and> owns grid {} s \<and>
       has_cells grid (\<lambda>i j. getSeed (int i) (int j)) s \<and> unmoved (statics X g) s"
proof -
  let ?f = "\<lambda>i j. getSeed (int i) (int j)"
  define col where "col = (\<lambda>i. fold (\<lambda>j. place i j (getSeed (int i) (int j))) [0..<10])"
  have run: "init_buildings s = Some (fold col [0..<10] s)" for s
    unfolding init_buildings_def Let_def col_def
    by (rule for_each_total) (simp add: add_row_Some [where sd = "\<lambda>j s. getSeed (int i) (int j)" for i] new_building_place for_each_total)
  define P where "P = (\<lambda>n t. owns ({..<n} \<times> {..<10}) {} t \<and> has_cells ({..<n} \<times> {..<10}) ?f t
      \<and> unmoved (statics X g) t)"
  have "P 10 (fold col [0..<10] (statics X g))"
  proof (rule fold_upt_induct [where P = P])
    show "P 0 (statics X g)"
      using owns_statics by (simp add: P_def has_cells_def)
  next
    fix n t assume n: "n < (10::nat)" and Pn: "P n t"
    define Q where "Q = (\<lambda>m u. owns ({..<n} \<times> {..<10} \<union> {n} \<times> {..<m}) {} u
      \<and> has_cells ({..<n} \<times> {..<10} \<union> {n} \<times> {..<m}) ?f u \<and> unmoved (statics X g) u)"
    have "Q 10 (fold (\<lambda>j. place n j (getSeed (int n) (int j))) [0..<10] t)"
    proof (rule fold_upt_induct [where P = Q])
      show "Q 0 t" using Pn by (simp add: P_def Q_def)
    next
      fix m u assume m: "m < (10::nat)" and Qm: "Q m u"
      let ?A = "{..<n} \<times> {..<10} \<union> {n} \<times> {..<m}"
      from Qm have O: "owns ?A {} u" and C: "has_cells ?A ?f u" and un: "unmoved (statics X g) u"
        by (simp_all add: Q_def)
      have N: "(n, m) \<notin> ?A" by simp
      have A': "insert (n, m) ?A = {..<n} \<times> {..<10} \<union> {n} \<times> {..<Suc m}"
        by (auto simp: lessThan_Suc)
      show "Q (Suc m) (place n m (getSeed (int n) (int m)) u)"
        using owns_place [OF O N] has_cells_place [OF O N C refl refl] un
        unfolding A' by (simp add: Q_def unmoved_def)
    qed
    moreover have "{..<n} \<times> {..<10} \<union> {n} \<times> {..<10} = {..<Suc n} \<times> {..<(10::nat)}"
      by (auto simp: lessThan_Suc)
    ultimately show "P (Suc n) (col n t)"
      by (simp add: P_def Q_def col_def)
  qed
  then show ?thesis
    by (simp add: run P_def grid_def)
qed

lemma init_geometryRoads_effect:
  assumes O: "owns grid {} s" and C: "has_cells grid f s"
  shows "owns grid {roads (init_geometryRoads s)} (init_geometryRoads s)"
    and "has_cells grid f (init_geometryRoads s)"
    and "unmoved (s\<lparr>roads := gl_next s\<rparr>) (init_geometryRoads s)"
proof -
  let ?s = "init_geometryRoads s"
  have sl: "slot ?s i j = slot s i j" for i j
    by (simp add: init_geometryRoads_def kuhl_geometry_new_def kuhl_geometry_attrib_def
        kuhl_geometry_indices_def slot_def Let_def)
  have r: "roads ?s = gl_next s" and nx: "gl_next ?s = Suc (gl_next s)"
    and dm: "dom (gl_objects ?s) = insert (gl_next s) (dom (gl_objects s))"
    and ob: "\<And>g. g \<noteq> gl_next s \<Longrightarrow> gl_objects ?s g = gl_objects s g"
    by (auto simp: init_geometryRoads_def kuhl_geometry_new_def kuhl_geometry_attrib_def
        kuhl_geometry_indices_def Let_def)
  note sc = slot_cong [of ?s s, OF sl]
  have lt: "handle s k < gl_next s" if "k \<in> keys grid s" for k
    using that by (rule handle_less [OF O])
  then have "gl_next s \<notin> handle s ` keys grid s"
    by fastforce
  then show "owns grid {roads ?s} ?s"
    using ownsD [OF O] unfolding owns_def sc r nx dm by (auto simp: less_Suc_eq)
  show "has_cells grid f ?s"
  proof (rule has_cellsI)
    fix i j assume ij: "(i, j) \<in> grid"
    have "handle s ` keys {(i, j)} s \<inter> {gl_next s} = {}"
      using lt keys_mono [of "{(i, j)}" grid s] ij by fastforce
    from live_cell [OF O ij this, of ?s] sl [of i j] ob has_cellsD [OF C ij]
    show "cell_at ?s i j = generated (f i j)"
      by (simp add: slot_def)
  qed
  show "unmoved (s\<lparr>roads := gl_next s\<rparr>) ?s"
    by (simp add: unmoved_def init_geometryRoads_def kuhl_geometry_new_def
        kuhl_geometry_attrib_def kuhl_geometry_indices_def Let_def)
qed

lemma startup_effect:
  "\<exists>s. startup X g = Some s \<and> inv s \<and> city s \<and> shift s = 0 \<and> shiftBreak s = 0 \<and> recycled s = []"
proof -
  from init_buildings_effect [of X g]
  obtain t where t: "init_buildings (statics X g) = Some t" "owns grid {} t"
    "has_cells grid (\<lambda>i j. getSeed (int i) (int j)) t" "unmoved (statics X g) t"
    by blast
  note r = init_geometryRoads_effect [OF t(2,3)]
  have un: "shift (init_geometryRoads t) = 0" "shiftBreak (init_geometryRoads t) = 0"
    "recycled (init_geometryRoads t) = []"
    using r(3) t(4) by (simp_all add: unmoved_def statics_def)
  show ?thesis
    using t(1) r(1,2) un by (auto simp: startup_def inv_def city_def)
qed

lemma keyboard_fields [simp]:
  "slot (keyboard k s) i j = slot s i j"
  "gl_objects (keyboard k s) = gl_objects s"
  "gl_next (keyboard k s) = gl_next s"
  "shiftBreak (keyboard k s) = shiftBreak s"
  "roads (keyboard k s) = roads s"
  "recycled (keyboard k s) = recycled s"
  by (cases k; simp add: keyboard_def slot_def)+

lemma fold_keyboard_fields [simp]:
  "slot (fold keyboard ks s) i j = slot s i j"
  "gl_objects (fold keyboard ks s) = gl_objects s"
  "gl_next (fold keyboard ks s) = gl_next s"
  "shiftBreak (fold keyboard ks s) = shiftBreak s"
  "roads (fold keyboard ks s) = roads s"
  "recycled (fold keyboard ks s) = recycled s"
  by (induction ks arbitrary: s; simp)+

lemma set_shiftBreak_fields [simp]:
  "slot (s\<lparr>shiftBreak := b\<rparr>) i j = slot s i j"
  by (simp add: slot_def)

lemma has_cells_eq:
  assumes "has_cells A f s" and "\<And>i j. (i, j) \<in> A \<Longrightarrow> f i j = f' i j"
  shows "has_cells A f' s"
  using assms by (auto simp: has_cells_def)

lemma display_far:
  assumes O: "owns grid E s" and C: "has_cells grid f s" and lt: "\<lfloor>shift s\<rfloor> < shiftBreak s"
  shows "\<exists>s'. display s = Some s' \<and> owns grid E s' \<and>
           has_cells grid (\<lambda>i j. if j = 9 then getSeed (int i) (9 - \<lfloor>shift s\<rfloor>) else f i (Suc j)) s' \<and>
           shift s' = shift s \<and> shiftBreak s' = \<lfloor>shift s\<rfloor> \<and> roads s' = roads s \<and>
           recycled s' = recycled s @ [RowFar \<lfloor>shift s\<rfloor>] \<and>
           (\<forall>k \<in> keys (row 0) s. handle s k \<notin> dom (gl_objects s')) \<and>
           (\<forall>i j. j \<noteq> 9 \<longrightarrow> slot s' i j = (if i < 10 \<and> j < 9 then slot s i (Suc j) else slot s i j))"
proof -
  let ?s = "s\<lparr>shiftBreak := \<lfloor>shift s\<rfloor>\<rparr>"
  have O': "owns grid E ?s"
    using O by (subst owns_cong [of ?s s]) simp_all
  have C': "has_cells grid f ?s"
    using C by (subst has_cells_cong [of ?s s]) simp_all
  have k: "keys A ?s = keys A s" "handle ?s = handle s" for A
    using slot_cong [of ?s s] by simp_all
  have d: "display s = addRowFar ?s"
    using lt by (simp add: display_def)
  have sb: "shiftBreak ?s = \<lfloor>shift s\<rfloor>" "shift ?s = shift s" "roads ?s = roads s"
    "recycled ?s = recycled s" "\<And>i j. slot ?s i j = slot s i j"
    by simp_all
  show ?thesis
    using addRowFar_effect [OF O' C'] unfolding d k sb .
qed

lemma display_near:
  assumes O: "owns grid E s" and C: "has_cells grid f s" and gt: "shiftBreak s < \<lfloor>shift s\<rfloor>"
  shows "\<exists>s'. display s = Some s' \<and> owns grid E s' \<and>
           has_cells grid (\<lambda>i j. if j = 0 then getSeed (int i) (- \<lfloor>shift s\<rfloor>) else f i (j - 1)) s' \<and>
           shift s' = shift s \<and> shiftBreak s' = \<lfloor>shift s\<rfloor> \<and> roads s' = roads s \<and>
           recycled s' = recycled s @ [RowNear \<lfloor>shift s\<rfloor>] \<and>
           (\<forall>k \<in> keys (row 9) s. handle s k \<notin> dom (gl_objects s')) \<and>
           (\<forall>i j. j \<noteq> 0 \<longrightarrow> slot s' i j = (if i < 10 \<and> j < 10 then slot s i (j - 1) else slot s i j))"
proof -
  let ?s = "s\<lparr>shiftBreak := \<lfloor>shift s\<rfloor>\<rparr>"
  have O': "owns grid E ?s"
    using O by (subst owns_cong [of ?s s]) simp_all
  have C': "has_cells grid f ?s"
    using C by (subst has_cells_cong [of ?s s]) simp_all
  have k: "keys A ?s = keys A s" "handle ?s = handle s" for A
    using slot_cong [of ?s s] by simp_all
  have d: "display s = addRowNear ?s"
    using gt by (simp add: display_def)
  have sb: "shiftBreak ?s = \<lfloor>shift s\<rfloor>" "shift ?s = shift s" "roads ?s = roads s"
    "recycled ?s = recycled s" "\<And>i j. slot ?s i j = slot s i j"
    by simp_all
  show ?thesis
    using addRowNear_effect [OF O' C'] unfolding d k sb .
qed

lemma display_inv:
  assumes "inv s"
  shows "\<exists>s'. display s = Some s' \<and> inv s' \<and> shift s' = shift s \<and> shiftBreak s' = \<lfloor>shift s\<rfloor> \<and>
           length (recycled s') = length (recycled s) + (if \<lfloor>shift s\<rfloor> = shiftBreak s then 0 else 1)"
proof -
  from assms obtain f where O: "owns grid {roads s} s" and C: "has_cells grid f s"
    by (auto simp: inv_def)
  consider "\<lfloor>shift s\<rfloor> < shiftBreak s" | "shiftBreak s < \<lfloor>shift s\<rfloor>" | "\<lfloor>shift s\<rfloor> = shiftBreak s"
    by linarith
  then show ?thesis
  proof cases
    case 1
    from display_far [OF O C 1] show ?thesis
      using 1 by (auto simp: inv_def)
  next
    case 2
    from display_near [OF O C 2] show ?thesis
      using 2 by (auto simp: inv_def)
  next
    case 3
    then show ?thesis
      using assms by (simp add: display_def)
  qed
qed

lemma display_city:
  assumes I: "inv s" and Y: "city s" and one: "\<bar>\<lfloor>shift s\<rfloor> - shiftBreak s\<bar> \<le> 1"
    and run: "display s = Some s'"
  shows "city s'"
proof -
  let ?f = "\<lambda>i j. getSeed (int i) (int j - shiftBreak s)"
  from I have O: "owns grid {roads s} s"
    by (simp add: inv_def)
  from Y have C: "has_cells grid ?f s"
    by (simp add: city_def)
  consider "\<lfloor>shift s\<rfloor> = shiftBreak s - 1" | "\<lfloor>shift s\<rfloor> = shiftBreak s + 1" | "\<lfloor>shift s\<rfloor> = shiftBreak s"
    using one by linarith
  then show ?thesis
  proof cases
    case 1
    then have lt: "\<lfloor>shift s\<rfloor> < shiftBreak s" by simp
    from display_far [OF O C lt] run
    have sb: "shiftBreak s' = \<lfloor>shift s\<rfloor>"
      and H: "has_cells grid (\<lambda>i j. if j = 9 then getSeed (int i) (9 - \<lfloor>shift s\<rfloor>) else ?f i (Suc j)) s'"
      by auto
    show ?thesis
      unfolding city_def sb using H
      by (rule has_cells_eq) (auto simp: 1 algebra_simps)
  next
    case 2
    then have gt: "shiftBreak s < \<lfloor>shift s\<rfloor>" by simp
    from display_near [OF O C gt] run
    have sb: "shiftBreak s' = \<lfloor>shift s\<rfloor>"
      and H: "has_cells grid (\<lambda>i j. if j = 0 then getSeed (int i) (- \<lfloor>shift s\<rfloor>) else ?f i (j - 1)) s'"
      by auto
    show ?thesis
      unfolding city_def sb using H
      by (rule has_cells_eq) (auto simp: 2 algebra_simps of_nat_diff)
  next
    case 3
    then show ?thesis
      using Y run by (simp add: display_def)
  qed
qed

lemma keyboard_inv:
  "inv (fold keyboard ks s) = inv s" "city (fold keyboard ks s) = city s"
proof -
  have "owns A E (fold keyboard ks s) = owns A E s" for A E
    by (rule owns_cong) simp_all
  moreover have "has_cells A f (fold keyboard ks s) = has_cells A f s" for A f
    by (rule has_cells_cong) simp_all
  ultimately show "inv (fold keyboard ks s) = inv s" "city (fold keyboard ks s) = city s"
    by (simp_all add: inv_def city_def)
qed

lemma frame_inv:
  assumes "inv s"
  shows "\<exists>s'. frame ks s = Some s' \<and> inv s' \<and> shiftBreak s' = \<lfloor>shift s'\<rfloor> \<and>
           shift s' = shift (fold keyboard ks s) \<and>
           length (recycled s') = length (recycled s) + (if boundaries_crossed s ks = 0 then 0 else 1)"
proof -
  from assms have "inv (fold keyboard ks s)"
    by (simp add: keyboard_inv)
  from display_inv [OF this] show ?thesis
    by (auto simp: frame_def boundaries_crossed_def)
qed

lemma frame_city:
  assumes "inv s" and "city s" and "boundaries_crossed s ks \<le> 1" and "frame ks s = Some s'"
  shows "city s'"
proof -
  from assms(1,2) have "inv (fold keyboard ks s)" "city (fold keyboard ks s)"
    by (simp_all add: keyboard_inv)
  moreover from assms(3) have "\<bar>\<lfloor>shift (fold keyboard ks s)\<rfloor> - shiftBreak (fold keyboard ks s)\<bar> \<le> 1"
    by (simp add: boundaries_crossed_def)
  ultimately show ?thesis
    using assms(4) unfolding frame_def by (rule display_city)
qed

lemma frames_steady:
  assumes "inv s" and "steady kss s"
  shows "\<exists>s'. frames kss s = Some s' \<and> inv s' \<and> (city s \<longrightarrow> city s') \<and>
           length (recycled s') = length (recycled s) + crossings kss s"
  using assms
proof (induction kss arbitrary: s)
  case Nil
  then show ?case by simp
next
  case (Cons ks kss)
  from frame_inv [OF Cons.prems(1), of ks]
  obtain s1 where 1: "frame ks s = Some s1" "inv s1"
    "length (recycled s1) = length (recycled s) + (if boundaries_crossed s ks = 0 then 0 else 1)"
    by blast
  from Cons.prems(2) 1(1) have one: "boundaries_crossed s ks \<le> 1" and st: "steady kss s1"
    by simp_all
  from Cons.IH [OF 1(2) st]
  obtain s' where 2: "frames kss s1 = Some s'" "inv s'" "city s1 \<longrightarrow> city s'"
    "length (recycled s') = length (recycled s1) + crossings kss s1"
    by blast
  have "city s \<Longrightarrow> city s1"
    using frame_city [OF Cons.prems(1) _ one 1(1)] by simp
  moreover have "(if boundaries_crossed s ks = 0 then 0 else 1) = boundaries_crossed s ks"
    using one by simp
  ultimately show ?case
    using 1 2 by auto
qed

lemma inv_cells:
  assumes "inv s"
  obtains f where "owns grid {roads s} s" and "has_cells grid f s"
  using assms by (auto simp: inv_def)

lemma releasedI:
  assumes "\<forall>k \<in> keys (row r) s. handle s k \<notin> dom (gl_objects s')" and "i < 10"
  shows "released s s' i r"
proof -
  have "(i, r, Shell) \<in> keys (row r) s" "(i, r, Panes) \<in> keys (row r) s"
    "isComplex s i r = 1 \<Longrightarrow> (i, r, TopShell) \<in> keys (row r) s"
    "isComplex s i r = 1 \<Longrightarrow> (i, r, TopPanes) \<in> keys (row r) s"
    using assms(2) by (simp_all add: keys_def row_def)
  with assms(1) show ?thesis
    unfolding released_def by fastforce
qed

lemma initial_facts:
  "inv initial" "city initial" "shift initial = 0" "shiftBreak initial = 0" "recycled initial = []"
  using startup_effect [of 0 1] by (auto simp: initial_def)

lemma complete_shell_mesh: "complete (shell_mesh fud sh w h)"
  by (simp add: complete_def shell_mesh_def length_concat sum_list_replicate)

lemma complete_windows_mesh:
  assumes "tier_windows fud sh w h X = Some st"
  shows "complete (windows_mesh (nat (total_windows w h * 4 * 3)) st)"
proof -
  have tw: "0 \<le> total_windows w h"
    using assms by (auto simp: tier_windows_def window_arrays_def split: if_splits)
  from window_arrays_Some [OF tw, of fud sh X] assms
  have L: "length (wVertexPositions st) = nat (total_windows w h * 4 * 3 * 3)"
    "length (wNormalData st) = nat (total_windows w h * 4 * 3 * 3)"
    "length (wColorData st) = nat (total_windows w h * 4 * 3 * 3)"
    "length (wIndexData st) = nat (total_windows w h * 4 * 3 * 3 div 2)"
    by (auto simp: tier_windows_def)
  have a: "nat (total_windows w h * 4 * 3 * 3) = 3 * nat (total_windows w h * 4 * 3)"
    using tw by (simp add: nat_mult_distrib)
  have b: "2 * nat (total_windows w h * 4 * 3 * 3 div 2) = 3 * nat (total_windows w h * 4 * 3)"
    using tw by (simp add: nat_mult_distrib)
  show ?thesis
    unfolding complete_def windows_mesh_def using L a b by simp
qed

lemma complete_windows_mesh_nf:
  assumes "tier_windows fud sh w h X = Some st"
  shows "complete (windows_mesh (nat (12 * total_windows w h)) st)"
proof -
  have "total_windows w h * 4 * 3 = 12 * total_windows w h" by simp
  with complete_windows_mesh [OF assms] show ?thesis by simp
qed

lemma generate_complete:
  assumes "generate seed = Some (p, X)"
  shows "complete (p_shell p)" and "complete (p_windows p)"
    and "p_top p = Some (t, tw) \<Longrightarrow> complete t \<and> complete tw"
  using assms unfolding generate_def
  by (auto simp: Let_def case_prod_beta complete_shell_mesh complete_windows_mesh_nf
        split: option.splits if_splits)

lemma cell_populated:
  assumes "cell_at s i j = generated seed"
  shows "populated s i j"
proof -
  obtain p X where g: "generate seed = Some (p, X)"
    using generate_Some by blast
  note c = generate_complete [OF g]
  show ?thesis
  proof (cases "p_top p")
    case None
    with assms g c(1,2) show ?thesis
      by (simp add: cell_at_def generated_def complexity_def populated_def split: if_splits)
  next
    case (Some a)
    obtain t tw where a: "a = (t, tw)" by (cases a)
    from c(3) [of t tw] Some a have "complete t" "complete tw" by simp_all
    with assms g c(1,2) Some a show ?thesis
      by (simp add: cell_at_def generated_def complexity_def populated_def split: if_splits)
  qed
qed

lemma keys_row: "r < 10 \<Longrightarrow> keys (grid \<inter> row r) s = keys (row r) s"
  by (auto simp: keys_def grid_def row_def)

lemma retire_row:
  assumes "inv s" and "r < 10"
  shows "(\<forall>i j. slot (delete_row r (s\<lparr>recycled := l\<rparr>)) i j = slot s i j) \<and>
         dom (gl_objects (delete_row r (s\<lparr>recycled := l\<rparr>)))
           = dom (gl_objects s) - handle s ` keys (row r) s"
proof -
  let ?s = "s\<lparr>recycled := l\<rparr>"
  from assms(1) obtain f where O: "owns grid {roads s} s" and C: "has_cells grid f s"
    by (auto simp: inv_def)
  have sl: "slot ?s i j = slot s i j" for i j
    by (simp add: slot_def)
  have O': "owns grid {roads s} ?s"
    using O by (subst owns_cong [of ?s s]) (simp_all add: sl)
  have C': "has_cells grid f ?s"
    using C by (subst has_cells_cong [of ?s s]) (simp_all add: sl)
  have k: "keys A ?s = keys A s" "handle ?s = handle s" for A
    using slot_cong [of ?s s] sl by simp_all
  from delete_row_inv [OF O' C' assms(2)] show ?thesis
    by (simp add: k keys_row [OF assms(2)] sl)
qed

lemma frames_append:
  "frames (xs @ ys) s = (case frames xs s of None \<Rightarrow> None | Some s' \<Rightarrow> frames ys s')"
  by (induction xs arbitrary: s) (simp_all split: option.splits)

lemma steady_append:
  "steady (xs @ ys) s \<longleftrightarrow>
     steady xs s \<and> (case frames xs s of None \<Rightarrow> False | Some s' \<Rightarrow> steady ys s')"
proof (induction xs arbitrary: s)
  case Nil
  show ?case by simp
next
  case (Cons ks xs)
  show ?case
  proof (cases "frame ks s")
    case None
    then show ?thesis by simp
  next
    case (Some s1)
    then show ?thesis
      using Cons [of s1] by (cases "frames xs s1") auto
  qed
qed

lemma frame_step:
  assumes "inv s"
  obtains s' where "frame ks s = Some s'" and "inv s'" and "shiftBreak s' = \<lfloor>shift s'\<rfloor>"
    and "shift s' = shift (fold keyboard ks s)"
    and "length (recycled s') = length (recycled s) + (if boundaries_crossed s ks = 0 then 0 else 1)"
  using frame_inv [OF assms, of ks] by blast

lemma city_cell:
  assumes "city s" and "i < 10" and "j < 10"
  shows "cell_at s i j = generated (getSeed (int i) (int j - shiftBreak s))"
  using has_cellsD [OF assms(1) [unfolded city_def], of i j] assms(2,3) by (simp add: grid_def)

lemma frame_near:
  assumes O: "owns grid E s" and C: "has_cells grid f s"
    and gt: "shiftBreak s < \<lfloor>shift (fold keyboard ks s)\<rfloor>"
  shows "\<exists>s'. frame ks s = Some s' \<and> owns grid E s' \<and>
           has_cells grid (\<lambda>i j. if j = 0 then getSeed (int i) (- \<lfloor>shift (fold keyboard ks s)\<rfloor>)
                                 else f i (j - 1)) s' \<and>
           shift s' = shift (fold keyboard ks s) \<and>
           shiftBreak s' = \<lfloor>shift (fold keyboard ks s)\<rfloor>"
proof -
  let ?s = "fold keyboard ks s"
  have O': "owns grid E ?s"
    using O by (subst owns_cong [of ?s s]) simp_all
  have C': "has_cells grid f ?s"
    using C by (subst has_cells_cong [of ?s s]) simp_all
  have gt': "shiftBreak ?s < \<lfloor>shift ?s\<rfloor>"
    using gt by simp
  from display_near [OF O' C' gt'] show ?thesis
    unfolding frame_def by blast
qed

lemma frame_far:
  assumes O: "owns grid E s" and C: "has_cells grid f s"
    and lt: "\<lfloor>shift (fold keyboard ks s)\<rfloor> < shiftBreak s"
  shows "\<exists>s'. frame ks s = Some s' \<and> owns grid E s' \<and>
           has_cells grid (\<lambda>i j. if j = 9 then getSeed (int i) (9 - \<lfloor>shift (fold keyboard ks s)\<rfloor>)
                                 else f i (Suc j)) s' \<and>
           shift s' = shift (fold keyboard ks s) \<and>
           shiftBreak s' = \<lfloor>shift (fold keyboard ks s)\<rfloor>"
proof -
  let ?s = "fold keyboard ks s"
  have O': "owns grid E ?s"
    using O by (subst owns_cong [of ?s s]) simp_all
  have C': "has_cells grid f ?s"
    using C by (subst has_cells_cong [of ?s s]) simp_all
  have lt': "\<lfloor>shift ?s\<rfloor> < shiftBreak ?s"
    using lt by simp
  from display_far [OF O' C' lt'] show ?thesis
    unfolding frame_def by blast
qed

lemma generate_shell:
  assumes "generate seed = Some (p, X)"
  shows "\<exists>h. p_shell p = shell_mesh 0 0 (fst (randomRange (4 / 10) (8 / 10) (srand48 seed))) h"
  using assms unfolding generate_def
  by (auto simp: Let_def case_prod_beta split: option.splits if_splits)

lemma shell_width: "in_Position (shell_mesh 0 0 w h) ! 3 = Some w"
  by (simp add: shell_mesh_def)

lemma generated_width:
  assumes "generated a = generated b"
  shows "fst (randomRange (4 / 10) (8 / 10) (srand48 a))
       = fst (randomRange (4 / 10) (8 / 10) (srand48 b))"
proof -
  obtain p X where a: "generate a = Some (p, X)"
    using generate_Some by blast
  obtain q Y where b: "generate b = Some (q, Y)"
    using generate_Some by blast
  from assms a b have "p_shell p = p_shell q"
    by (simp add: generated_def)
  moreover from generate_shell [OF a] obtain h
    where "p_shell p = shell_mesh 0 0 (fst (randomRange (4 / 10) (8 / 10) (srand48 a))) h" ..
  moreover from generate_shell [OF b] obtain h'
    where "p_shell q = shell_mesh 0 0 (fst (randomRange (4 / 10) (8 / 10) (srand48 b))) h'" ..
  ultimately have "in_Position (shell_mesh 0 0 (fst (randomRange (4 / 10) (8 / 10) (srand48 a))) h) ! 3
      = in_Position (shell_mesh 0 0 (fst (randomRange (4 / 10) (8 / 10) (srand48 b))) h') ! 3"
    by simp
  then show ?thesis
    unfolding shell_width by simp
qed

lemma hardSeed_code [code]: "hardSeed = [4576379 / 65536, 5856297 / 524288]"
  by code_simp

lemma seeds_0_1: "getSeed 0 1 = 49662" "getSeed 0 0 = 38492"
  by code_simp+

lemma widths_differ:
  "fst (randomRange (4 / 10) (8 / 10) (srand48 49662))
     \<noteq> fst (randomRange (4 / 10) (8 / 10) (srand48 38492))"
  by code_simp

lemma shift_fold: "shift (fold keyboard ks s) = fold key_shift ks (shift s)"
  by (induction ks arbitrary: s) (simp_all add: keyboard_def key_shift_def split: key.splits)

lemma nearest_even_error: "\<bar>of_int (nearest_even q) - q\<bar> \<le> 1 / 2"
proof -
  have "of_int \<lfloor>q\<rfloor> \<le> q" "q < of_int \<lfloor>q\<rfloor> + 1"
    by linarith+
  then show ?thesis
    unfolding nearest_even_def Let_def by (auto simp: abs_le_iff)
qed

lemma round_to_error:
  assumes "0 < p"
  shows "\<bar>round_to p x - x\<bar> \<le> \<bar>x\<bar> / 2 ^ p"
proof (cases "x = 0")
  case True
  then show ?thesis by simp
next
  case False
  define u where "u = pow2 (exponent x - int p + 1)"
  have u: "0 < u" by (simp add: u_def)
  have r: "round_to p x = of_int (nearest_even (x / u)) * u"
    using False by (simp add: round_to_def u_def Let_def)
  have "of_int (nearest_even (x / u)) * u - x = (of_int (nearest_even (x / u)) - x / u) * u"
    using u by (simp add: left_diff_distrib)
  then have "\<bar>of_int (nearest_even (x / u)) * u - x\<bar> = \<bar>of_int (nearest_even (x / u)) - x / u\<bar> * u"
    using u by (simp add: abs_mult)
  also have "\<dots> \<le> 1 / 2 * u"
    using nearest_even_error [of "x / u"] u by (intro mult_right_mono) simp_all
  also have "1 / 2 * u = pow2 (exponent x) / 2 ^ p"
  proof -
    have "pow2 (exponent x) = pow2 (int p - 1) * u"
      using pow2_add [of "int p - 1" "exponent x - int p + 1"] by (simp add: u_def)
    moreover have "pow2 (int p - 1) * 2 = 2 ^ p"
      using pow2_nat [of "int p - 1"] assms power_Suc [of "2::rat" "p - 1"] by (simp add: nat_diff_distrib')
    ultimately show ?thesis
      by (simp add: field_simps)
  qed
  also have "\<dots> \<le> \<bar>x\<bar> / 2 ^ p"
    using exponent_bounds(1) [OF False] by (simp add: divide_right_mono)
  finally show ?thesis
    unfolding r .
qed

lemma fl_error: "\<bar>fl x - x\<bar> \<le> \<bar>x\<bar> / 16777216"
  using round_to_error [of 24 x] by (simp add: fl_def)

lemma dbl_error: "\<bar>dbl x - x\<bar> \<le> \<bar>x\<bar> / 9007199254740992"
  using round_to_error [of 53 x] by (simp add: dbl_def)

lemma fl_bounds: "x - \<bar>x\<bar> / 16777216 \<le> fl x" "fl x \<le> x + \<bar>x\<bar> / 16777216"
  using fl_error [of x] unfolding abs_le_iff by linarith+

lemma dbl_bounds:
  "x - \<bar>x\<bar> / 9007199254740992 \<le> dbl x" "dbl x \<le> x + \<bar>x\<bar> / 9007199254740992"
  using dbl_error [of x] unfolding abs_le_iff by linarith+

lemma key_shift_bounds:
  assumes "- 4 \<le> x" and "x \<le> 4"
  shows "x + 1 / 10 - 1 / 1000000 \<le> key_shift KEY_B x"
    and "key_shift KEY_B x \<le> x + 1 / 10 + 1 / 1000000"
    and "x - 1 / 10 - 1 / 1000000 \<le> key_shift KEY_SPACE x"
    and "key_shift KEY_SPACE x \<le> x - 1 / 10 + 1 / 1000000"
proof -
  define d where "d = dbl (1 / 10)"
  have d: "1 / 10 - 1 / 1000000000 \<le> d" "d \<le> 1 / 10 + 1 / 1000000000"
    using dbl_bounds [of "1 / 10"] by (simp_all add: d_def)
  have *: "w - 1 / 2000000 \<le> fl (dbl w) \<and> fl (dbl w) \<le> w + 1 / 2000000"
    if w: "- 5 \<le> w" "w \<le> 5" for w
  proof -
    have a: "\<bar>w\<bar> \<le> 5" using w by (simp add: abs_le_iff)
    note b = dbl_bounds [of w]
    have c: "\<bar>dbl w\<bar> \<le> 6"
      using a b by (simp add: abs_le_iff) linarith
    note e = fl_bounds [of "dbl w"]
    have "\<bar>w\<bar> / 9007199254740992 \<le> 1 / 1000000000" "\<bar>dbl w\<bar> / 16777216 \<le> 4 / 10000000"
      using a c by simp_all
    with b e show ?thesis by linarith
  qed
  from * [of "x + d"] assms d
  show "x + 1 / 10 - 1 / 1000000 \<le> key_shift KEY_B x"
    and "key_shift KEY_B x \<le> x + 1 / 10 + 1 / 1000000"
    unfolding key_shift_def d_def [symmetric] by simp_all
  from * [of "x - d"] assms d
  show "x - 1 / 10 - 1 / 1000000 \<le> key_shift KEY_SPACE x"
    and "key_shift KEY_SPACE x \<le> x - 1 / 10 + 1 / 1000000"
    unfolding key_shift_def d_def [symmetric] by simp_all
qed

lemma travel_B:
  assumes "- 4 \<le> x" and "x + of_nat n * (100001 / 1000000) \<le> 4"
  shows "x + of_nat n * (99999 / 1000000) \<le> fold key_shift (replicate n KEY_B) x \<and>
         fold key_shift (replicate n KEY_B) x \<le> x + of_nat n * (100001 / 1000000)"
  using assms
proof (induction n arbitrary: x)
  case 0
  then show ?case by simp
next
  case (Suc n)
  have n: "0 \<le> (of_nat n :: rat)"
    by simp
  have p: "x + of_nat n * (100001 / 1000000) + 100001 / 1000000 \<le> 4"
    using Suc.prems(2) unfolding of_nat_Suc ring_distribs by linarith
  have x: "x \<le> 4"
    using p n by linarith
  note k = key_shift_bounds(1,2) [OF Suc.prems(1) x]
  have "- 4 \<le> key_shift KEY_B x" "key_shift KEY_B x + of_nat n * (100001 / 1000000) \<le> 4"
    using k p Suc.prems(1) by linarith+
  from Suc.IH [OF this] k
  have "x + of_nat n * (99999 / 1000000) + 99999 / 1000000 \<le> fold key_shift (replicate n KEY_B) (key_shift KEY_B x)"
    and "fold key_shift (replicate n KEY_B) (key_shift KEY_B x) \<le> x + of_nat n * (100001 / 1000000) + 100001 / 1000000"
    by linarith+
  then show ?case
    unfolding of_nat_Suc ring_distribs replicate_Suc fold_simps by simp
qed

lemma travel_SPACE:
  assumes "x \<le> 4" and "- 4 \<le> x - of_nat n * (100001 / 1000000)"
  shows "x - of_nat n * (100001 / 1000000) \<le> fold key_shift (replicate n KEY_SPACE) x \<and>
         fold key_shift (replicate n KEY_SPACE) x \<le> x - of_nat n * (99999 / 1000000)"
  using assms
proof (induction n arbitrary: x)
  case 0
  then show ?case by simp
next
  case (Suc n)
  have n: "0 \<le> (of_nat n :: rat)"
    by simp
  have p: "- 4 \<le> x - of_nat n * (100001 / 1000000) - 100001 / 1000000"
    using Suc.prems(2) unfolding of_nat_Suc ring_distribs by linarith
  have x: "- 4 \<le> x"
    using p n by linarith
  note k = key_shift_bounds(3,4) [OF x Suc.prems(1)]
  have "key_shift KEY_SPACE x \<le> 4" "- 4 \<le> key_shift KEY_SPACE x - of_nat n * (100001 / 1000000)"
    using k p Suc.prems(1) by linarith+
  from Suc.IH [OF this] k
  have "x - of_nat n * (100001 / 1000000) - 100001 / 1000000 \<le> fold key_shift (replicate n KEY_SPACE) (key_shift KEY_SPACE x)"
    and "fold key_shift (replicate n KEY_SPACE) (key_shift KEY_SPACE x) \<le> x - of_nat n * (99999 / 1000000) - 99999 / 1000000"
    by linarith+
  then show ?case
    unfolding of_nat_Suc ring_distribs replicate_Suc fold_simps by simp
qed

lemma steady_round_trip:
  assumes "startup X g = Some s0"
    and "steady adv s0" and "frames adv s0 = Some s1" and "shiftBreak s1 = shiftBreak s0 + k"
    and "steady ret s1" and "frames ret s1 = Some s2" and "shiftBreak s2 = shiftBreak s1 - k"
    and "i < 10" and "j < 10"
  shows "cell_at s2 i j = cell_at s0 i j \<and>
         cell_at s2 i j = generated (getSeed (int i) (int j)) \<and>
         isComplex s2 i j = isComplex s0 i j \<and>
         (\<forall>j'<10. int j' - k = int j \<longrightarrow> cell_at s1 i j' = cell_at s0 i j)"
proof -
  from startup_effect [of X g] assms(1)
  have s0: "inv s0" "city s0" "shiftBreak s0 = 0"
    by auto
  from frames_steady [OF s0(1) assms(2)] assms(3) s0(2)
  have s1: "inv s1" "city s1"
    by auto
  from frames_steady [OF s1(1) assms(5)] assms(6) s1(2)
  have s2: "city s2"
    by auto
  have b: "shiftBreak s1 = k" "shiftBreak s2 = 0"
    using assms(4,7) s0(3) by simp_all
  have c0: "cell_at s0 i j = generated (getSeed (int i) (int j))"
    using city_cell [OF s0(2) assms(8,9)] s0(3) by simp
  have c2: "cell_at s2 i j = generated (getSeed (int i) (int j))"
    using city_cell [OF s2 assms(8,9)] b(2) by simp
  have c1: "cell_at s1 i j' = cell_at s0 i j" if "j' < 10" "int j' - k = int j" for j'
    using city_cell [OF s1(2) assms(8) that(1)] that(2) b(1) c0 by simp
  have "fst (snd (snd (cell_at s2 i j))) = fst (snd (snd (cell_at s0 i j)))"
    unfolding c0 c2 ..
  then have "isComplex s2 i j = isComplex s0 i j"
    by (simp add: cell_at_def)
  with c0 c1 c2 show ?thesis
    by simp
qed

section \<open>The claims\<close>

text \<open>
  C1. One recycle event for each boundary crossed. A frame hands the pending key events
  to \<^verbatim>\<open>keyboard\<close>, each moving \<^verbatim>\<open>shift\<close> by a tenth, and then runs \<^verbatim>\<open>display\<close>, which
  compares \<open>\<lfloor>shift\<rfloor>\<close> with \<^verbatim>\<open>shiftBreak\<close> once, assigns \<open>\<lfloor>shift\<rfloor>\<close> to \<^verbatim>\<open>shiftBreak\<close> and
  calls \<^verbatim>\<open>addRowFar\<close> or \<^verbatim>\<open>addRowNear\<close> once. From the first frame of the program, 26
  events of the key B in one frame move \<^verbatim>\<open>shift\<close> from 0 to about 2.6, across two
  boundaries; the frame fires one recycle event, not two. (Runs of frames that cross at
  most one boundary each fire one event for each boundary: lemma \<open>frames_steady\<close>.)
\<close>

theorem jump_fires_once:
  "boundaries_crossed initial (replicate 26 KEY_B) = 2 \<and>
   recycles_fired initial (replicate 26 KEY_B) = 1"
proof -
  let ?ks = "replicate 26 KEY_B"
  have "2 \<le> fold key_shift ?ks 0" and "fold key_shift ?ks 0 < 3"
    using travel_B [of 0 26] by simp_all
  then have "\<lfloor>fold key_shift ?ks 0\<rfloor> = 2"
    by (intro floor_unique) simp_all
  then have fl: "\<lfloor>shift (fold keyboard ?ks initial)\<rfloor> = 2"
    unfolding shift_fold initial_facts .
  have b: "boundaries_crossed initial ?ks = 2"
    unfolding boundaries_crossed_def fl initial_facts by simp
  obtain s' where "frame ?ks initial = Some s'"
    and "length (recycled s') = length (recycled initial)
           + (if boundaries_crossed initial ?ks = 0 then 0 else 1)"
    using initial_facts(1) by (rule frame_step)
  then have "recycles_fired initial ?ks = 1"
    unfolding recycles_fired_def b by simp
  with b show ?thesis ..
qed

text \<open>
  C2. The round trip. A frame of 26 events of the key B advances \<^verbatim>\<open>shiftBreak\<close> from 0 to
  2 with a single recycle event, which moves the rows of the grid by one; two frames of
  10 events of the space key each then retreat it to 1 and to 0 with an event each. At
  the end \<^verbatim>\<open>shiftBreak\<close> is 0 as at the start, but the slot \<open>(0, 0)\<close> holds the building
  of the seed \<open>getSeed 0 1\<close>, where it held the building of \<open>getSeed 0 0\<close>, and the two
  buildings differ (in the width of the shell). (When every frame crosses at most one
  boundary, the round trip restores every cell: lemma \<open>steady_round_trip\<close>.)
\<close>

theorem jump_breaks_round_trip:
  "frames [replicate 26 KEY_B] initial \<noteq> None \<and>
   shiftBreak (the (frames [replicate 26 KEY_B] initial)) = shiftBreak initial + 2 \<and>
   frames [replicate 10 KEY_SPACE, replicate 10 KEY_SPACE]
     (the (frames [replicate 26 KEY_B] initial)) \<noteq> None \<and>
   shiftBreak (the (frames [replicate 10 KEY_SPACE, replicate 10 KEY_SPACE]
                     (the (frames [replicate 26 KEY_B] initial))))
     = shiftBreak (the (frames [replicate 26 KEY_B] initial)) - 2 \<and>
   cell_at (the (frames [replicate 10 KEY_SPACE, replicate 10 KEY_SPACE]
                  (the (frames [replicate 26 KEY_B] initial)))) 0 0
     = generated (getSeed 0 1) \<and>
   cell_at initial 0 0 = generated (getSeed 0 0) \<and>
   generated (getSeed 0 1) \<noteq> generated (getSeed 0 0)"
proof -
  let ?f0 = "\<lambda>i j. getSeed (int i) (int j)"
  let ?B = "replicate 26 KEY_B" and ?S = "replicate 10 KEY_SPACE"
  from initial_facts(1) have O0: "owns grid {roads initial} initial"
    by (simp add: inv_def)
  have C0: "has_cells grid ?f0 initial"
    using initial_facts(2) unfolding city_def initial_facts by simp
  have v1: "2599 / 1000 \<le> fold key_shift ?B 0" "fold key_shift ?B 0 \<le> 2601 / 1000"
    using travel_B [of 0 26] by simp_all
  then have "\<lfloor>fold key_shift ?B 0\<rfloor> = 2"
    by (intro floor_unique) simp_all
  then have f1: "\<lfloor>shift (fold keyboard ?B initial)\<rfloor> = 2"
    unfolding shift_fold initial_facts .
  have gt: "shiftBreak initial < \<lfloor>shift (fold keyboard ?B initial)\<rfloor>"
    unfolding f1 initial_facts by simp
  from frame_near [OF O0 C0 gt]
  obtain s1 where s1: "frame ?B initial = Some s1"
    "owns grid {roads initial} s1"
    "has_cells grid (\<lambda>i j. if j = 0 then getSeed (int i) (- 2) else ?f0 i (j - 1)) s1"
    "shift s1 = shift (fold keyboard ?B initial)" "shiftBreak s1 = 2"
    unfolding f1 by blast
  have x1: "2599 / 1000 \<le> shift s1" "shift s1 \<le> 2601 / 1000"
    using v1 unfolding s1(4) shift_fold initial_facts by simp_all
  have v2: "1598 / 1000 \<le> fold key_shift ?S (shift s1)" "fold key_shift ?S (shift s1) \<le> 1602 / 1000"
    using travel_SPACE [of "shift s1" 10] x1 by simp_all
  then have "\<lfloor>fold key_shift ?S (shift s1)\<rfloor> = 1"
    by (intro floor_unique) simp_all
  then have f2: "\<lfloor>shift (fold keyboard ?S s1)\<rfloor> = 1"
    unfolding shift_fold .
  have lt2: "\<lfloor>shift (fold keyboard ?S s1)\<rfloor> < shiftBreak s1"
    unfolding f2 s1(5) by simp
  from frame_far [OF s1(2,3) lt2]
  obtain s2 where s2: "frame ?S s1 = Some s2"
    "owns grid {roads initial} s2"
    "has_cells grid (\<lambda>i j. if j = 9 then getSeed (int i) (9 - 1)
        else (if Suc j = 0 then getSeed (int i) (- 2) else ?f0 i (Suc j - 1))) s2"
    "shift s2 = shift (fold keyboard ?S s1)" "shiftBreak s2 = 1"
    unfolding f2 by blast
  have x2: "1598 / 1000 \<le> shift s2" "shift s2 \<le> 1602 / 1000"
    using v2 unfolding s2(4) shift_fold by simp_all
  have "597 / 1000 \<le> fold key_shift ?S (shift s2)" "fold key_shift ?S (shift s2) \<le> 603 / 1000"
    using travel_SPACE [of "shift s2" 10] x2 by simp_all
  then have "\<lfloor>fold key_shift ?S (shift s2)\<rfloor> = 0"
    by (intro floor_unique) simp_all
  then have f3: "\<lfloor>shift (fold keyboard ?S s2)\<rfloor> = 0"
    unfolding shift_fold .
  have lt3: "\<lfloor>shift (fold keyboard ?S s2)\<rfloor> < shiftBreak s2"
    unfolding f3 s2(5) by simp
  from frame_far [OF s2(2,3) lt3]
  obtain s3 where s3: "frame ?S s2 = Some s3"
    "has_cells grid (\<lambda>i j. if j = 9 then getSeed (int i) (9 - 0)
        else (if Suc j = 9 then getSeed (int i) (9 - 1)
        else (if Suc (Suc j) = 0 then getSeed (int i) (- 2) else ?f0 i (Suc (Suc j) - 1)))) s3"
    "shiftBreak s3 = 0"
    unfolding f3 by blast
  have c3: "cell_at s3 0 0 = generated (getSeed 0 1)"
    using has_cellsD [OF s3(2), of 0 0] by (simp add: grid_def)
  have c0: "cell_at initial 0 0 = generated (getSeed 0 0)"
    using has_cellsD [OF C0, of 0 0] by (simp add: grid_def)
  have ne: "generated (getSeed 0 1) \<noteq> generated (getSeed 0 0)"
    unfolding seeds_0_1 using generated_width [of 49662 38492] widths_differ by blast
  have r1: "frames [?B] initial = Some s1"
    by (simp only: frames.simps s1(1) option.case)
  have r2: "frames [?S, ?S] s1 = Some s3"
    by (simp only: frames.simps s2(1) s3(1) option.case)
  show ?thesis
    unfolding r1 r2 option.sel using ne c3 c0 s1(5) s3(3) initial_facts(4) by simp
qed

text \<open>
  C5. The steps of a recycle event. \<^verbatim>\<open>display\<close> compares the boundary \<open>\<lfloor>shift\<rfloor>\<close> with
  \<^verbatim>\<open>shiftBreak\<close>. When the boundary is below \<^verbatim>\<open>shiftBreak\<close>, one \<open>RowFar\<close> event is
  logged; for every lateral index \<open>i\<close> the meshes of the cell in row 0 are released (those
  of its top when its flag is set), the slots \<open>1..9\<close> are copied to \<open>0..8\<close>, names and flag
  unchanged, so that the cells are the same meshes as before; the cell in row 9 is the
  one the generator builds from \<open>getSeed i (9 - boundary)\<close>; and \<^verbatim>\<open>shiftBreak\<close> is the
  boundary. When the boundary is above \<^verbatim>\<open>shiftBreak\<close>, symmetrically: row 9 is released,
  the slots \<open>0..8\<close> are copied to \<open>1..9\<close>, row 0 is built from \<open>getSeed i (- boundary)\<close>.
  When the boundary equals \<^verbatim>\<open>shiftBreak\<close> nothing changes.
\<close>

theorem recycle_steps:
  assumes "inv s"
  shows "(\<lfloor>shift s\<rfloor> < shiftBreak s \<longrightarrow>
           (\<exists>s'. display s = Some s' \<and> shiftBreak s' = \<lfloor>shift s\<rfloor> \<and>
              recycled s' = recycled s @ [RowFar \<lfloor>shift s\<rfloor>] \<and>
              (\<forall>i<10. released s s' i 0 \<and>
                 (\<forall>j<9. slot s' i j = slot s i (Suc j) \<and> cell_at s' i j = cell_at s i (Suc j)) \<and>
                 cell_at s' i 9 = generated (getSeed (int i) (9 - \<lfloor>shift s\<rfloor>))))) \<and>
         (shiftBreak s < \<lfloor>shift s\<rfloor> \<longrightarrow>
           (\<exists>s'. display s = Some s' \<and> shiftBreak s' = \<lfloor>shift s\<rfloor> \<and>
              recycled s' = recycled s @ [RowNear \<lfloor>shift s\<rfloor>] \<and>
              (\<forall>i<10. released s s' i 9 \<and>
                 (\<forall>j<9. slot s' i (Suc j) = slot s i j \<and> cell_at s' i (Suc j) = cell_at s i j) \<and>
                 cell_at s' i 0 = generated (getSeed (int i) (- \<lfloor>shift s\<rfloor>))))) \<and>
         (\<lfloor>shift s\<rfloor> = shiftBreak s \<longrightarrow> display s = Some s)"
proof (intro conjI impI)
  from assms obtain f where O: "owns grid {roads s} s" and C: "has_cells grid f s"
    by (rule inv_cells)
  {
    assume lt: "\<lfloor>shift s\<rfloor> < shiftBreak s"
    from display_far [OF O C lt]
    obtain s' where run: "display s = Some s'" "shiftBreak s' = \<lfloor>shift s\<rfloor>"
      "recycled s' = recycled s @ [RowFar \<lfloor>shift s\<rfloor>]"
      and H: "has_cells grid (\<lambda>i j. if j = 9 then getSeed (int i) (9 - \<lfloor>shift s\<rfloor>) else f i (Suc j)) s'"
      and R: "\<forall>k \<in> keys (row 0) s. handle s k \<notin> dom (gl_objects s')"
      and S: "\<And>i j. j \<noteq> 9 \<Longrightarrow> slot s' i j = (if i < 10 \<and> j < 9 then slot s i (Suc j) else slot s i j)"
      by blast
    have "released s s' i 0 \<and>
        (\<forall>j<9. slot s' i j = slot s i (Suc j) \<and> cell_at s' i j = cell_at s i (Suc j)) \<and>
        cell_at s' i 9 = generated (getSeed (int i) (9 - \<lfloor>shift s\<rfloor>))" if i: "i < 10" for i
    proof (intro conjI allI impI)
      show "released s s' i 0"
        using R i by (rule releasedI)
      show "cell_at s' i 9 = generated (getSeed (int i) (9 - \<lfloor>shift s\<rfloor>))"
        using has_cellsD [OF H, of i 9] i by (simp add: grid_def)
      fix j :: nat assume j: "j < 9"
      show "slot s' i j = slot s i (Suc j)"
        using S [of j i] i j by simp
      show "cell_at s' i j = cell_at s i (Suc j)"
        using has_cellsD [OF H, of i j] has_cellsD [OF C, of i "Suc j"] i j by (simp add: grid_def)
    qed
    with run show "\<exists>s'. display s = Some s' \<and> shiftBreak s' = \<lfloor>shift s\<rfloor> \<and>
              recycled s' = recycled s @ [RowFar \<lfloor>shift s\<rfloor>] \<and>
              (\<forall>i<10. released s s' i 0 \<and>
                 (\<forall>j<9. slot s' i j = slot s i (Suc j) \<and> cell_at s' i j = cell_at s i (Suc j)) \<and>
                 cell_at s' i 9 = generated (getSeed (int i) (9 - \<lfloor>shift s\<rfloor>)))"
      by blast
  }
  {
    assume gt: "shiftBreak s < \<lfloor>shift s\<rfloor>"
    from display_near [OF O C gt]
    obtain s' where run: "display s = Some s'" "shiftBreak s' = \<lfloor>shift s\<rfloor>"
      "recycled s' = recycled s @ [RowNear \<lfloor>shift s\<rfloor>]"
      and H: "has_cells grid (\<lambda>i j. if j = 0 then getSeed (int i) (- \<lfloor>shift s\<rfloor>) else f i (j - 1)) s'"
      and R: "\<forall>k \<in> keys (row 9) s. handle s k \<notin> dom (gl_objects s')"
      and S: "\<And>i j. j \<noteq> 0 \<Longrightarrow> slot s' i j = (if i < 10 \<and> j < 10 then slot s i (j - 1) else slot s i j)"
      by blast
    have "released s s' i 9 \<and>
        (\<forall>j<9. slot s' i (Suc j) = slot s i j \<and> cell_at s' i (Suc j) = cell_at s i j) \<and>
        cell_at s' i 0 = generated (getSeed (int i) (- \<lfloor>shift s\<rfloor>))" if i: "i < 10" for i
    proof (intro conjI allI impI)
      show "released s s' i 9"
        using R i by (rule releasedI)
      show "cell_at s' i 0 = generated (getSeed (int i) (- \<lfloor>shift s\<rfloor>))"
        using has_cellsD [OF H, of i 0] i by (simp add: grid_def)
      fix j :: nat assume j: "j < 9"
      show "slot s' i (Suc j) = slot s i j"
        using S [of "Suc j" i] i j by simp
      show "cell_at s' i (Suc j) = cell_at s i j"
        using has_cellsD [OF H, of i "Suc j"] has_cellsD [OF C, of i j] i j by (simp add: grid_def)
    qed
    with run show "\<exists>s'. display s = Some s' \<and> shiftBreak s' = \<lfloor>shift s\<rfloor> \<and>
              recycled s' = recycled s @ [RowNear \<lfloor>shift s\<rfloor>] \<and>
              (\<forall>i<10. released s s' i 9 \<and>
                 (\<forall>j<9. slot s' i (Suc j) = slot s i j \<and> cell_at s' i (Suc j) = cell_at s i j) \<and>
                 cell_at s' i 0 = generated (getSeed (int i) (- \<lfloor>shift s\<rfloor>)))"
      by blast
  }
  {
    assume "\<lfloor>shift s\<rfloor> = shiftBreak s"
    then show "display s = Some s"
      by (simp add: display_def)
  }
qed

theorem recycle_steps_witness:
  "\<exists>s'. display (fold keyboard (replicate 15 KEY_SPACE) initial) = Some s' \<and>
        shiftBreak s' = - 2 \<and> recycled s' = [RowFar (- 2)] \<and>
        cell_at s' 3 9 = generated (getSeed 3 11) \<and>
        cell_at s' 3 0 = cell_at initial 3 1"
proof -
  let ?s = "fold keyboard (replicate 15 KEY_SPACE) initial"
  have I: "inv ?s"
    unfolding keyboard_inv by (rule initial_facts)
  have "- 2 \<le> fold key_shift (replicate 15 KEY_SPACE) 0"
    and "fold key_shift (replicate 15 KEY_SPACE) 0 < - 1"
    using travel_SPACE [of 0 15] by simp_all
  then have "\<lfloor>fold key_shift (replicate 15 KEY_SPACE) 0\<rfloor> = - 2"
    by (intro floor_unique) simp_all
  then have sh: "\<lfloor>shift ?s\<rfloor> = - 2"
    unfolding shift_fold initial_facts .
  have sb: "shiftBreak ?s = 0" "recycled ?s = []"
    unfolding fold_keyboard_fields by (rule initial_facts)+
  have c: "cell_at ?s 3 1 = cell_at initial 3 1"
    by (rule cell_at_slot; unfold fold_keyboard_fields; rule refl)
  have lt: "\<lfloor>shift ?s\<rfloor> < shiftBreak ?s"
    unfolding sh sb by simp
  from recycle_steps [OF I] lt
  obtain s' where "display ?s = Some s'" "shiftBreak s' = \<lfloor>shift ?s\<rfloor>"
    "recycled s' = recycled ?s @ [RowFar \<lfloor>shift ?s\<rfloor>]"
    "\<forall>i<10. released ?s s' i 0 \<and>
        (\<forall>j<9. slot s' i j = slot ?s i (Suc j) \<and> cell_at s' i j = cell_at ?s i (Suc j)) \<and>
        cell_at s' i 9 = generated (getSeed (int i) (9 - \<lfloor>shift ?s\<rfloor>))"
    by blast
  note r = this [unfolded sh sb]
  from r(4) have "cell_at s' 3 9 = generated (getSeed (int 3) (9 - - 2))"
    and "cell_at s' 3 0 = cell_at ?s 3 (Suc 0)"
    by simp_all
  then have "cell_at s' 3 9 = generated (getSeed 3 11)" and "cell_at s' 3 0 = cell_at initial 3 1"
    using c by simp_all
  with r(1-3) show ?thesis
    by (intro exI [of _ s']) (simp del: fold_replicate)
qed

text \<open>
  C6. The grid is complete, and the meshes of the top go with the flag. \<open>inv\<close> holds
  after the start of the program and is kept by every frame. In a state with \<open>inv\<close>,
  each of the 100 slots holds a live shell mesh and a live window mesh with all their
  buffers, a flag that is 0 or 1 and, when the flag is 1, two live meshes of the top;
  the names in the slots are all different, and the live objects of the renderer are
  the road and the meshes in the slots, those of the top exactly for the slots whose
  flag is set. Retiring a row releases exactly these meshes of its cells, the top ones
  exactly where the flag is set, in a state \<open>d\<close> whose slots are still those of \<open>s\<close>:
  \<^verbatim>\<open>addRowFar\<close> and \<^verbatim>\<open>addRowNear\<close> relocate and generate from \<open>d\<close> on.
\<close>

theorem grid_complete:
  assumes "inv s"
  shows "(\<exists>s0. startup X g = Some s0 \<and> inv s0) \<and>
         (\<exists>s'. frame ks s = Some s' \<and> inv s') \<and>
         (\<forall>i<10. \<forall>j<10. populated s i j) \<and>
         inj_on (handle s) (keys grid s) \<and>
         roads s \<notin> handle s ` keys grid s \<and>
         dom (gl_objects s) = insert (roads s) (handle s ` keys grid s) \<and>
         (\<exists>d. (\<forall>i j. slot d i j = slot s i j) \<and>
              dom (gl_objects d) = dom (gl_objects s) - handle s ` keys (row 0) s \<and>
              addRowFar s =
                for_each [0..<10]
                  (\<lambda>n t. new_building n 9 (getSeed (int n) (9 - shiftBreak t)) t)
                  (move_rows_back d)) \<and>
         (\<exists>d. (\<forall>i j. slot d i j = slot s i j) \<and>
              dom (gl_objects d) = dom (gl_objects s) - handle s ` keys (row 9) s \<and>
              addRowNear s =
                for_each [0..<10]
                  (\<lambda>n t. new_building n 0 (getSeed (int n) (- shiftBreak t)) t)
                  (move_rows_forward d))"
proof (intro conjI)
  from assms obtain f where O: "owns grid {roads s} s" and C: "has_cells grid f s"
    by (auto simp: inv_def)
  show "\<exists>s0. startup X g = Some s0 \<and> inv s0"
    using startup_effect [of X g] by blast
  show "\<exists>s'. frame ks s = Some s' \<and> inv s'"
    using frame_inv [OF assms, of ks] by blast
  show "\<forall>i<10. \<forall>j<10. populated s i j"
  proof (intro allI impI)
    fix i j :: nat assume "i < 10" "j < 10"
    then have "cell_at s i j = generated (f i j)"
      using has_cellsD [OF C, of i j] by (simp add: grid_def)
    then show "populated s i j"
      by (rule cell_populated)
  qed
  show "inj_on (handle s) (keys grid s)"
    using O by (simp add: owns_def)
  show "roads s \<notin> handle s ` keys grid s"
    using O by (simp add: owns_def)
  show "dom (gl_objects s) = insert (roads s) (handle s ` keys grid s)"
    using O by (simp add: owns_def)
  show "\<exists>d. (\<forall>i j. slot d i j = slot s i j) \<and>
              dom (gl_objects d) = dom (gl_objects s) - handle s ` keys (row 0) s \<and>
              addRowFar s =
                for_each [0..<10]
                  (\<lambda>n t. new_building n 9 (getSeed (int n) (9 - shiftBreak t)) t)
                  (move_rows_back d)"
    using retire_row [OF assms, of 0 "recycled s @ [RowFar (shiftBreak s)]"]
    by (intro exI [of _ "delete_row 0 (s\<lparr>recycled := recycled s @ [RowFar (shiftBreak s)]\<rparr>)"])
       (simp add: addRowFar_def Let_def)
  show "\<exists>d. (\<forall>i j. slot d i j = slot s i j) \<and>
              dom (gl_objects d) = dom (gl_objects s) - handle s ` keys (row 9) s \<and>
              addRowNear s =
                for_each [0..<10]
                  (\<lambda>n t. new_building n 0 (getSeed (int n) (- shiftBreak t)) t)
                  (move_rows_forward d)"
    using retire_row [OF assms, of 9 "recycled s @ [RowNear (shiftBreak s)]"]
    by (intro exI [of _ "delete_row 9 (s\<lparr>recycled := recycled s @ [RowNear (shiftBreak s)]\<rparr>)"])
       (simp add: addRowNear_def Let_def)
qed

theorem grid_complete_witness:
  "(\<exists>s'. frame [KEY_B] initial = Some s' \<and> inv s') \<and>
   populated initial 4 7 \<and>
   dom (gl_objects initial) = insert (roads initial) (handle initial ` keys grid initial)"
  using grid_complete [OF initial_facts(1), of 0 1 "[KEY_B]"] by simp

text \<open>
  C8. Tier-2 containment. For a base of width \<open>oldW\<close> that is not below \<open>ws + wp\<close>, as
  every base width that the generator draws from \<open>[0.4, 0.8]\<close> is, the block that draws
  the dimensions of the top yields a width \<open>w\<close>, sampled in \<open>[ws + wp, oldW]\<close> and raised
  by 0.15 only when the raised width stays below \<open>oldW\<close>, that never exceeds \<open>oldW\<close>, and
  an inset \<open>fud\<close> in \<open>[0, (oldW - w) / 2]\<close>. The footprint of the top,
  \<open>[fud, fud + w] \<times> [- fud - w, - fud]\<close>, therefore lies inside the footprint of the base,
  \<open>[0, oldW] \<times> [- oldW, 0]\<close>.
\<close>

theorem top_within_base:
  assumes "ws + wp \<le> oldW" and "top_dimensions oldW s = ((w, h, fud), s')"
  shows "(let w0 = fst (random_world (ws + wp) oldW s)
          in ws + wp \<le> w0 \<and> w0 \<le> oldW \<and>
             w = (if w0 + 15 / 100 < oldW then w0 + 15 / 100 else w0)) \<and>
         ws + wp \<le> w \<and> w \<le> oldW \<and>
         0 \<le> fud \<and> fud \<le> (oldW - w) / 2 \<and>
         0 \<le> fud \<and> fud + w \<le> oldW \<and> - oldW \<le> - fud - w \<and> - fud \<le> 0 \<and>
         4 / 10 \<le> fst (random_world (4 / 10) (8 / 10) s0) \<and>
         fst (random_world (4 / 10) (8 / 10) s0) \<le> 8 / 10 \<and>
         ws + wp \<le> fst (random_world (4 / 10) (8 / 10) s0)"
proof -
  from assms(2) have td: "top_dims oldW (rand48 s) = ((w, h, fud), rand48 s')"
    by (auto simp: top_dimensions_eq prod_eq_iff)
  note b = top_dims_bounds [OF assms(1) td]
  have w0: "fst (random_world (ws + wp) oldW s) = fst (randomRange (ws + wp) oldW (rand48 s))"
    by (simp add: random_world_def case_prod_beta)
  have 1: "ws + wp \<le> fst (randomRange (ws + wp) oldW (rand48 s))"
    "fst (randomRange (ws + wp) oldW (rand48 s)) \<le> oldW"
    using randomRange_bounds [OF assms(1)] by simp_all
  have 2: "w = (if fst (randomRange (ws + wp) oldW (rand48 s)) + 15 / 100 < oldW
                then fst (randomRange (ws + wp) oldW (rand48 s)) + 15 / 100
                else fst (randomRange (ws + wp) oldW (rand48 s)))"
    using td by (auto simp: top_dims_def Let_def case_prod_beta split: if_splits)
  have 3: "fud + w \<le> oldW"
    using b(2,6) by (simp add: field_simps)
  have 4: "4 / 10 \<le> fst (random_world (4 / 10) (8 / 10) s0)"
    "fst (random_world (4 / 10) (8 / 10) s0) \<le> 8 / 10"
    using randomRange_bounds [of "4 / 10" "8 / 10" "rand48 s0"]
    by (simp_all add: random_world_def case_prod_beta)
  then have 5: "ws + wp \<le> fst (random_world (4 / 10) (8 / 10) s0)"
    by (simp add: ws_def wp_def)
  show ?thesis
    unfolding Let_def w0 using 1 2 3 4 5 b by (intro conjI) simp_all
qed

theorem top_within_base_witness:
  "\<exists>w h fud s'. top_dimensions (1 / 2) (statics 0 1) = ((w, h, fud), s') \<and>
     ws + wp \<le> w \<and> w \<le> 1 / 2 \<and> 0 \<le> fud \<and> fud \<le> (1 / 2 - w) / 2 \<and> fud + w \<le> 1 / 2"
proof -
  obtain w h fud s' where td: "top_dimensions (1 / 2) (statics 0 1) = ((w, h, fud), s')"
    by (metis prod_cases3 surj_pair)
  have "ws + wp \<le> 1 / 2"
    by (simp add: ws_def wp_def)
  from top_within_base [OF this td] td show ?thesis
    by blast
qed

end
